theory Spec2Isabelle
  imports Complex_Main "HOL-Library.Char_ord" "HOL-Library.List_Lexorder"
    "HOL-Library.Product_Lexorder" "HOL-Library.AList"
begin

section \<open>Text\<close>

text \<open>
  Python text is modelled by \<^typ>\<open>string\<close>, read as the UTF-8 bytes of the text.
  All characters the program tests for are ASCII, and an ASCII byte never occurs inside
  the encoding of another character, so searching for them byte-wise agrees with
  searching code point by code point.
\<close>

definition ascii_upper :: string where
  "ascii_upper = ''ABCDEFGHIJKLMNOPQRSTUVWXYZ''"

definition ascii_lower :: string where
  "ascii_lower = ''abcdefghijklmnopqrstuvwxyz''"

definition ascii_digits :: string where
  "ascii_digits = ''0123456789''"

definition lower_char :: "char \<Rightarrow> char" where
  "lower_char c = (case map_of (zip ascii_upper ascii_lower) c of None \<Rightarrow> c | Some d \<Rightarrow> d)"

text \<open>
  \<^verbatim>\<open>str.lower()\<close> on the ASCII letters. Bytes of other characters are left alone; the
  interpreter's lowering of a non-ASCII character yields an ASCII letter only for
  the Kelvin sign (\<open>k\<close>) and the dotted capital I (\<open>i\<close> followed by a combining dot),
  and neither produces an occurrence of a keyword searched for below.
\<close>

definition lower :: "string \<Rightarrow> string" where
  "lower s = map lower_char s"

definition startswith :: "string \<Rightarrow> string \<Rightarrow> bool" where
  "startswith s p = (take (length p) s = p)"

definition endswith :: "string \<Rightarrow> string \<Rightarrow> bool" where
  "endswith s p = (length p \<le> length s \<and> drop (length s - length p) s = p)"

text \<open>\<^verbatim>\<open>sub in s\<close> on text: \<open>sub\<close> occurs in \<open>s\<close> as a contiguous block.\<close>

fun contains :: "string \<Rightarrow> string \<Rightarrow> bool" where
  "contains sub [] = (sub = [])"
| "contains sub (c # cs) = (startswith (c # cs) sub \<or> contains sub cs)"

text \<open>
  Characters that are not ASCII appear as the byte blocks of their UTF-8 encoding, so a set of
  characters to strip or to split at is a list of such blocks. \<open>match_token\<close> gives the
  length of the first block that \<open>s\<close> starts with, or 0.
\<close>

fun match_token :: "string list \<Rightarrow> string \<Rightarrow> nat" where
  "match_token [] s = 0"
| "match_token (t # ts) s =
     (if t \<noteq> [] \<and> startswith s t then length t else match_token ts s)"

function lstrip_tokens :: "string list \<Rightarrow> string \<Rightarrow> string" where
  "lstrip_tokens toks s =
     (if match_token toks s = 0 then s else lstrip_tokens toks (drop (match_token toks s) s))"
  by pat_completeness auto
termination
proof (relation "measure (\<lambda>(toks, s). length s)")
  show "wf (measure (\<lambda>(toks :: string list, s :: string). length s))"
    by simp
next
  fix toks :: "string list" and s :: string
  assume pos: "match_token toks s \<noteq> 0"
  have "s \<noteq> []" if "match_token ts s \<noteq> 0" for ts
    using that by (induction ts) (auto simp: startswith_def split: if_splits)
  with pos have "s \<noteq> []" by blast
  with pos show "((toks, drop (match_token toks s) s), (toks, s))
      \<in> measure (\<lambda>(toks, s). length s)"
    by simp
qed

declare lstrip_tokens.simps [simp del]

definition rstrip_tokens :: "string list \<Rightarrow> string \<Rightarrow> string" where
  "rstrip_tokens toks s = rev (lstrip_tokens (map rev toks) (rev s))"

text \<open>
  The white space of \<^verbatim>\<open>str.strip()\<close> and \<^verbatim>\<open>str.split()\<close>: tab, line feed, vertical tab,
  form feed, carriage return, the four separators 1C to 1F, space, and then U+0085, U+00A0,
  U+1680, U+2000 to U+200A, U+2028, U+2029, U+202F, U+205F and U+3000.
\<close>

definition whitespace :: "string list" where
  "whitespace =
     map (\<lambda>c. [c]) [CHR 0x09, CHR 0x0A, CHR 0x0B, CHR 0x0C, CHR 0x0D,
                     CHR 0x1C, CHR 0x1D, CHR 0x1E, CHR 0x1F, CHR 0x20] @
     [[CHR 0xC2, CHR 0x85], [CHR 0xC2, CHR 0xA0], [CHR 0xE1, CHR 0x9A, CHR 0x80]] @
     map (\<lambda>c. [CHR 0xE2, CHR 0x80, c])
       [CHR 0x80, CHR 0x81, CHR 0x82, CHR 0x83, CHR 0x84, CHR 0x85, CHR 0x86, CHR 0x87,
        CHR 0x88, CHR 0x89, CHR 0x8A, CHR 0xA8, CHR 0xA9, CHR 0xAF] @
     [[CHR 0xE2, CHR 0x81, CHR 0x9F], [CHR 0xE3, CHR 0x80, CHR 0x80]]"

definition strip :: "string \<Rightarrow> string" where
  "strip s = rstrip_tokens whitespace (lstrip_tokens whitespace s)"

text \<open>The first white-space-free word of \<open>s\<close> and what follows it.\<close>

fun span_word :: "string \<Rightarrow> string \<times> string" where
  "span_word [] = ([], [])"
| "span_word (c # cs) =
     (if match_token whitespace (c # cs) \<noteq> 0 then ([], c # cs)
      else (case span_word cs of (w, rest) \<Rightarrow> (c # w, rest)))"

text \<open>
  \<^verbatim>\<open>s.split(None, maxsplit)\<close>: words separated by runs of white space; after
  \<open>maxsplit\<close> words the remainder, without its leading white space, is the last item.
\<close>

function split_ws :: "nat \<Rightarrow> string \<Rightarrow> string list" where
  "split_ws maxsplit s =
     (case lstrip_tokens whitespace s of
        [] \<Rightarrow> []
      | c # cs \<Rightarrow>
          if maxsplit = 0 then [c # cs]
          else (c # fst (span_word cs)) # split_ws (maxsplit - 1) (snd (span_word cs)))"
  by pat_completeness auto
termination
proof (relation "measure (\<lambda>(maxsplit, s). length s)")
  show "wf (measure (\<lambda>(maxsplit :: nat, s :: string). length s))"
    by simp
next
  fix maxsplit :: nat and s :: string and c :: char and cs :: string
  assume t: "lstrip_tokens whitespace s = c # cs"
  have word: "length (snd (span_word u)) \<le> length u" for u
    by (induction u) (auto split: prod.splits)
  have "length (lstrip_tokens toks u) \<le> length u" for toks u
  proof (induction toks u rule: lstrip_tokens.induct)
    case (1 toks u)
    show ?case
    proof (cases "match_token toks u = 0")
      case True
      then show ?thesis by (subst lstrip_tokens.simps) simp
    next
      case False
      with 1 have "length (lstrip_tokens toks (drop (match_token toks u) u))
          \<le> length (drop (match_token toks u) u)"
        by simp
      with False show ?thesis by (subst lstrip_tokens.simps) simp
    qed
  qed
  then have "length (lstrip_tokens whitespace s) \<le> length s" .
  with t have "length cs < length s" by simp
  with word [of cs] show "((maxsplit - 1, snd (span_word cs)), (maxsplit, s))
      \<in> measure (\<lambda>(maxsplit, s). length s)"
    by simp
qed

declare split_ws.simps [simp del]

text \<open>
  \<^verbatim>\<open>str.splitlines()\<close>: a line ends at CR LF, LF, CR, VT, FF, 1C, 1D, 1E, U+0085, U+2028
  or U+2029; a text that ends with a line end has no empty last line.
\<close>

definition line_ends :: "string list" where
  "line_ends =
     [[CHR 0x0D, CHR 0x0A], [CHR 0x0A], [CHR 0x0D], [CHR 0x0B], [CHR 0x0C],
      [CHR 0x1C], [CHR 0x1D], [CHR 0x1E], [CHR 0xC2, CHR 0x85],
      [CHR 0xE2, CHR 0x80, CHR 0xA8], [CHR 0xE2, CHR 0x80, CHR 0xA9]]"

function splitlines_from :: "string \<Rightarrow> string \<Rightarrow> string list" where
  "splitlines_from cur s =
     (if s = [] then (if cur = [] then [] else [cur])
      else if match_token line_ends s \<noteq> 0
        then cur # splitlines_from [] (drop (match_token line_ends s) s)
      else splitlines_from (cur @ [hd s]) (tl s))"
  by pat_completeness auto
termination
proof (relation "measure (\<lambda>(cur, s). length s)")
  show "wf (measure (\<lambda>(cur :: string, s :: string). length s))"
    by simp
next
  fix cur s :: string
  assume "s \<noteq> []"
  then show "(([], drop (match_token line_ends s) s), (cur, s))
      \<in> measure (\<lambda>(cur, s). length s)" if "match_token line_ends s \<noteq> 0"
    using that by simp
next
  fix cur s :: string
  assume "s \<noteq> []"
  then show "((cur @ [hd s], tl s), (cur, s)) \<in> measure (\<lambda>(cur, s). length s)"
    by simp
qed

declare splitlines_from.simps [simp del]

definition splitlines :: "string \<Rightarrow> string list" where
  "splitlines s = splitlines_from [] s"

text \<open>\<^verbatim>\<open>sep.join(xs)\<close>.\<close>

fun join :: "string \<Rightarrow> string list \<Rightarrow> string" where
  "join sep [] = []"
| "join sep [x] = x"
| "join sep (x # y # ys) = x @ sep @ join sep (y # ys)"

section \<open>Decoded JSON values and exceptions\<close>

text \<open>
  The value \<^verbatim>\<open>json.loads\<close> returns. A float is its rational value, or \<open>None\<close> for an
  infinity or a NaN. A dict is an association list read with \<open>map_of\<close>.
\<close>

datatype json =
    JNull
  | JBool bool
  | JInt int
  | JFloat "rat option"
  | JStr string
  | JArr "json list"
  | JObj "(string \<times> json) list"

datatype error =
    ValueError string
  | RuntimeError string
  | AttributeError
  | TypeError
  | IndexError
  | OtherError string

text \<open>Truth value of a decoded value, as \<^verbatim>\<open>not v\<close> and \<^verbatim>\<open>v or d\<close> see it.\<close>

fun truthy :: "json \<Rightarrow> bool" where
  "truthy JNull = False"
| "truthy (JBool b) = b"
| "truthy (JInt n) = (n \<noteq> 0)"
| "truthy (JFloat None) = True"
| "truthy (JFloat (Some q)) = (q \<noteq> 0)"
| "truthy (JStr s) = (s \<noteq> [])"
| "truthy (JArr xs) = (xs \<noteq> [])"
| "truthy (JObj kvs) = (kvs \<noteq> [])"

text \<open>\<^verbatim>\<open>e.get(k)\<close>: only a dict has the method; a missing key gives \<^verbatim>\<open>None\<close>.\<close>

fun dict_get :: "json \<Rightarrow> string \<Rightarrow> error + json" where
  "dict_get (JObj kvs) k = Inr (case map_of kvs k of None \<Rightarrow> JNull | Some v \<Rightarrow> v)"
| "dict_get _ k = Inl AttributeError"

section \<open>Numbers\<close>

text \<open>
  \<^verbatim>\<open>int(v)\<close> on a decoded value, \<open>None\<close> when it raises: a float is cut towards zero,
  a boolean is 0 or 1, and \<^verbatim>\<open>None\<close>, a list and a dict are refused. How the interpreter
  reads a text as an integer (white space, sign, underscores, the decimal digits of every
  script, a cap on the number of digits) is not modelled: it is the parameter \<open>rd\<close>, which
  gives the value of a text, or \<open>None\<close> when \<^verbatim>\<open>int\<close> raises on it.
\<close>

fun py_int :: "(string \<Rightarrow> int option) \<Rightarrow> json \<Rightarrow> int option" where
  "py_int rd (JInt n) = Some n"
| "py_int rd (JBool b) = Some (if b then 1 else 0)"
| "py_int rd (JFloat (Some q)) = Some (if 0 \<le> q then \<lfloor>q\<rfloor> else \<lceil>q\<rceil>)"
| "py_int rd (JFloat None) = None"
| "py_int rd (JStr s) = rd s"
| "py_int rd JNull = None"
| "py_int rd (JArr xs) = None"
| "py_int rd (JObj kvs) = None"

definition usec_to_ms :: "(string \<Rightarrow> int option) \<Rightarrow> json \<Rightarrow> int option" where
  "usec_to_ms rd v =
     (case py_int rd v of
        None \<Rightarrow> None
      | Some n \<Rightarrow> if n \<le> 0 then None else Some (n div 1000))"

function str_of_nat :: "nat \<Rightarrow> string" where
  "str_of_nat n =
     (if n < 10 then [ascii_digits ! n] else str_of_nat (n div 10) @ [ascii_digits ! (n mod 10)])"
  by pat_completeness auto
termination
  by (relation "measure (\<lambda>n. n)") auto

declare str_of_nat.simps [simp del]

text \<open>\<^verbatim>\<open>str(n)\<close> on an integer.\<close>

definition str_of_int :: "int \<Rightarrow> string" where
  "str_of_int n = (if n < 0 then ''-'' @ str_of_nat (nat (- n)) else str_of_nat (nat n))"

section \<open>Validation\<close>

text \<open>
  \<^verbatim>\<open>UNIT_RE = ^[A-Za-z0-9:._@\-]+$\<close> and \<^verbatim>\<open>INVOCATION_RE = ^[0-9a-f]{32}$\<close>, both used
  with \<^verbatim>\<open>fullmatch\<close>: the whole text is in the class, so no line end can follow.
\<close>

definition unit_chars :: string where
  "unit_chars = ascii_upper @ ascii_lower @ ascii_digits @ '':._@-''"

definition UNIT_RE_fullmatch :: "string \<Rightarrow> bool" where
  "UNIT_RE_fullmatch s = (s \<noteq> [] \<and> list_all (\<lambda>c. c \<in> set unit_chars) s)"

definition INVOCATION_RE_fullmatch :: "string \<Rightarrow> bool" where
  "INVOCATION_RE_fullmatch s =
     (length s = 32 \<and> list_all (\<lambda>c. c \<in> set (ascii_digits @ ''abcdef'')) s)"

text \<open>
  The test \<^verbatim>\<open>not unit or len(unit) > 200 or not UNIT_RE.fullmatch(unit)\<close>. \<^verbatim>\<open>len\<close> counts
  characters and \<open>length\<close> bytes; the two differ only on a text with a non-ASCII character,
  which the pattern refuses whatever its length, so the test gives the same answer.
\<close>

definition invalid_unit :: "string \<Rightarrow> bool" where
  "invalid_unit unit = (unit = [] \<or> length unit > 200 \<or> \<not> UNIT_RE_fullmatch unit)"

section \<open>The external world\<close>

text \<open>
  A command line is a list of arguments. What a query answers, what the JSON decoder
  returns, what \<^verbatim>\<open>int\<close> reads in a text and how a time stamp prints are not part of the
  program: they are the fields of \<open>env\<close>. \<open>subprocess_run\<close> sees the commands issued before, so that the same
  command may answer differently later; it gives the completed process, or the exception of
  a timeout or of a missing program. Every effectful function takes the list of commands
  issued so far and returns it extended by those it issues.
\<close>

type_synonym cmd = "string list"

record proc =
  returncode :: int
  stdout :: string
  stderr :: string

record env =
  subprocess_run :: "cmd list \<Rightarrow> cmd \<Rightarrow> error + proc"
  json_loads :: "string \<Rightarrow> error + json"
  int_text :: "string \<Rightarrow> int option"
  utc_isoformat :: "int \<Rightarrow> error + string"

definition run :: "env \<Rightarrow> cmd \<Rightarrow> cmd list \<Rightarrow> (error + string) \<times> cmd list" where
  "run ev c tr =
     (case subprocess_run ev tr c of
        Inl err \<Rightarrow> (Inl err, tr @ [c])
      | Inr p \<Rightarrow>
          if returncode p \<noteq> 0 then
            (let msg = strip (if stderr p \<noteq> [] then stderr p else stdout p)
             in (Inl (RuntimeError (if msg \<noteq> [] then msg
                                     else ''command failed: '' @ join '' '' c)), tr @ [c]))
          else (Inr (stdout p), tr @ [c]))"

text \<open>
  \<^verbatim>\<open>ms_to_iso\<close>: \<^verbatim>\<open>datetime.fromtimestamp(ms / 1000, tz=utc).isoformat()\<close>, which raises
  on a time beyond the calendar.
\<close>

definition ms_to_iso :: "env \<Rightarrow> int option \<Rightarrow> error + string option" where
  "ms_to_iso ev ms =
     (case ms of
        None \<Rightarrow> Inr None
      | Some m \<Rightarrow> (case utc_isoformat ev m of Inl err \<Rightarrow> Inl err | Inr s \<Rightarrow> Inr (Some s)))"

section \<open>The timer listing\<close>

text \<open>One entry of \<^verbatim>\<open>list_timers()\<close>, with the keys of the dict as fields.\<close>

record timer_item =
  timer :: json
  activates :: json
  nextMs :: "int option"
  nextIso :: "string option"
  lastMs :: "int option"
  lastIso :: "string option"

text \<open>
  \<^verbatim>\<open>for it in items\<close>: a list gives its elements, a dict its keys and a text its
  characters (both texts, on which \<^verbatim>\<open>get\<close> then fails at the first one); nothing else can
  be iterated.
\<close>

fun py_iter :: "json \<Rightarrow> error + json list" where
  "py_iter (JArr xs) = Inr xs"
| "py_iter (JObj kvs) = Inr (map (\<lambda>kv. JStr (fst kv)) kvs)"
| "py_iter (JStr s) = Inr (map (\<lambda>c. JStr [c]) s)"
| "py_iter v = Inl TypeError"

fun timers_loop :: "env \<Rightarrow> json list \<Rightarrow> error + timer_item list" where
  "timers_loop ev [] = Inr []"
| "timers_loop ev (it # its) =
     (case dict_get it ''next'' of Inl err \<Rightarrow> Inl err | Inr nx \<Rightarrow>
      case dict_get it ''last'' of Inl err \<Rightarrow> Inl err | Inr la \<Rightarrow>
      case dict_get it ''unit'' of Inl err \<Rightarrow> Inl err | Inr un \<Rightarrow>
      case dict_get it ''activates'' of Inl err \<Rightarrow> Inl err | Inr ac \<Rightarrow>
      case ms_to_iso ev (usec_to_ms (int_text ev) nx) of Inl err \<Rightarrow> Inl err | Inr next_iso \<Rightarrow>
      case ms_to_iso ev (usec_to_ms (int_text ev) la) of Inl err \<Rightarrow> Inl err | Inr last_iso \<Rightarrow>
      case timers_loop ev its of Inl err \<Rightarrow> Inl err | Inr res \<Rightarrow>
        Inr (\<lparr>timer = un, activates = ac, nextMs = usec_to_ms (int_text ev) nx, nextIso = next_iso,
              lastMs = usec_to_ms (int_text ev) la, lastIso = last_iso\<rparr> # res))"

text \<open>
  \<^verbatim>\<open>res.sort(key=lambda x: x.get("timer") or "")\<close>. The service manager names a timer by
  a text or not at all, and then the key is a text and the sort is the stable sort by it
  (byte order is code point order). With a single entry nothing is compared. A listing of
  several entries in which a name is a true value other than a text is not sorted by the
  model: it reports the \<^verbatim>\<open>TypeError\<close> that comparing a text with another kind of value
  raises.
\<close>

definition timer_key :: "timer_item \<Rightarrow> string option" where
  "timer_key t =
     (case timer t of JStr s \<Rightarrow> Some s | v \<Rightarrow> if truthy v then None else Some [])"

definition sort_timers :: "timer_item list \<Rightarrow> error + timer_item list" where
  "sort_timers res =
     (if list_all (\<lambda>t. timer_key t \<noteq> None) res then Inr (sort_key (\<lambda>t. the (timer_key t)) res)
      else if length res \<le> 1 then Inr res
      else Inl TypeError)"

definition list_timers :: "env \<Rightarrow> cmd list \<Rightarrow> (error + timer_item list) \<times> cmd list" where
  "list_timers ev tr =
     (case run ev [''systemctl'', ''list-timers'', ''--all'', ''--no-pager'', ''--output=json''] tr of
        (Inl err, tr1) \<Rightarrow> (Inl err, tr1)
      | (Inr out, tr1) \<Rightarrow>
          (case json_loads ev (if out \<noteq> [] then out else ''[]'') of
             Inl err \<Rightarrow> (Inl err, tr1)
           | Inr items \<Rightarrow>
               (case py_iter items of
                  Inl err \<Rightarrow> (Inl err, tr1)
                | Inr its \<Rightarrow>
                    (case timers_loop ev its of
                       Inl err \<Rightarrow> (Inl err, tr1)
                     | Inr res \<Rightarrow> (sort_timers res, tr1)))))"

section \<open>The schedule of a unit\<close>

text \<open>
  The dict \<^verbatim>\<open>schedule_for_unit\<close> returns: eight keys for a timer or a service, and
  \<^verbatim>\<open>{"unit": unit, "kind": "other"}\<close> for any other unit.
\<close>

datatype schedule =
    Schedule (s_unit: string) (s_kind: string) (s_timer: json) (s_activates: json)
      (s_nextMs: "int option") (s_nextIso: "string option")
      (s_lastMs: "int option") (s_lastIso: "string option")
  | Other string

text \<open>
  \<^verbatim>\<open>by_timer = {t.get("timer"): t for t in timers if t.get("timer")}\<close>: a true name that
  is a list or a dict cannot be a key; a later entry replaces an earlier one of the same
  name. \<open>by_timer_get\<close> is \<^verbatim>\<open>by_timer.get(unit)\<close> for a text \<open>unit\<close>, which only a key
  that is the same text equals.
\<close>

fun hashable :: "json \<Rightarrow> bool" where
  "hashable (JArr xs) = False"
| "hashable (JObj kvs) = False"
| "hashable v = True"

definition by_timer :: "timer_item list \<Rightarrow> error + (json \<times> timer_item) list" where
  "by_timer timers =
     (if list_all hashable (map timer (filter (\<lambda>t. truthy (timer t)) timers))
      then Inr (map (\<lambda>t. (timer t, t)) (filter (\<lambda>t. truthy (timer t)) timers))
      else Inl TypeError)"

definition by_timer_get :: "(json \<times> timer_item) list \<Rightarrow> string \<Rightarrow> timer_item option" where
  "by_timer_get d unit = map_of (rev d) (JStr unit)"

text \<open>
  The key \<^verbatim>\<open>(x.get("nextMs") is None, x.get("nextMs") or 0)\<close> of the candidates' sort:
  pairs compare first on the flag, \<open>False\<close> before \<open>True\<close>, then on the number.
\<close>

definition next_key :: "timer_item \<Rightarrow> bool \<times> int" where
  "next_key x = (nextMs x = None, case nextMs x of None \<Rightarrow> 0 | Some n \<Rightarrow> n)"

definition schedule_for_unit :: "env \<Rightarrow> string \<Rightarrow> cmd list \<Rightarrow> (error + schedule) \<times> cmd list" where
  "schedule_for_unit ev unit tr =
     (if invalid_unit unit then (Inl (ValueError ''invalid unit''), tr)
      else
        case list_timers ev tr of
          (Inl err, tr1) \<Rightarrow> (Inl err, tr1)
        | (Inr timers, tr1) \<Rightarrow>
            (case by_timer timers of
               Inl err \<Rightarrow> (Inl err, tr1)
             | Inr d \<Rightarrow>
                 if endswith unit ''.timer'' then
                   (case by_timer_get d unit of
                      None \<Rightarrow>
                        (Inr (Schedule unit ''timer'' (JStr unit) JNull None None None None), tr1)
                    | Some t \<Rightarrow>
                        (Inr (Schedule unit ''timer'' (JStr unit) (activates t)
                                (nextMs t) (nextIso t) (lastMs t) (lastIso t)), tr1))
                 else if endswith unit ''.service'' then
                   (case sort_key next_key (filter (\<lambda>t. activates t = JStr unit) timers) of
                      [] \<Rightarrow>
                        (Inr (Schedule unit ''service'' JNull (JStr unit) None None None None), tr1)
                    | t # candidates \<Rightarrow>
                        (Inr (Schedule unit ''service'' (timer t) (JStr unit)
                                (nextMs t) (nextIso t) (lastMs t) (lastIso t)), tr1))
                 else (Inr (Other unit), tr1)))"

text \<open>\<^verbatim>\<open>s.get("activates")\<close> on the returned dict.\<close>

fun schedule_activates :: "schedule \<Rightarrow> json" where
  "schedule_activates (Schedule u k tm ac nm ni lm li) = ac"
| "schedule_activates (Other u) = JNull"

definition resolve_log_unit :: "env \<Rightarrow> string \<Rightarrow> cmd list \<Rightarrow> (error + string) \<times> cmd list" where
  "resolve_log_unit ev unit tr =
     (if endswith unit ''.timer'' then
        (case schedule_for_unit ev unit tr of
           (Inl err, tr1) \<Rightarrow> (Inl err, tr1)
         | (Inr s, tr1) \<Rightarrow>
             (case schedule_activates s of
                JStr a \<Rightarrow> if a \<noteq> [] \<and> UNIT_RE_fullmatch a then (Inr a, tr1) else (Inr unit, tr1)
              | v \<Rightarrow> (Inr unit, tr1)))
      else (Inr unit, tr))"

section \<open>Run history\<close>

datatype status = Unknown | Success | Failed

text \<open>
  The three values of \<^verbatim>\<open>status\<close> are the texts \<^verbatim>\<open>"unknown"\<close>, \<^verbatim>\<open>"success"\<close> and
  \<^verbatim>\<open>"failed"\<close>.

  \<^verbatim>\<open>m = (msg or "").lower()\<close>: a false value counts as the empty text, a true value
  that is not a text has no \<^verbatim>\<open>lower\<close>.
\<close>

fun msg_lower :: "json \<Rightarrow> error + string" where
  "msg_lower (JStr s) = Inr (lower s)"
| "msg_lower v = (if truthy v then Inl AttributeError else Inr (lower []))"

definition upd_status :: "status \<Rightarrow> json \<Rightarrow> error + status" where
  "upd_status prev msg =
     (case msg_lower msg of
        Inl err \<Rightarrow> Inl err
      | Inr m \<Rightarrow>
          if contains ''failed'' m \<or> contains ''error'' m \<or> contains ''exited'' m then Inr Failed
          else if contains ''deactivated successfully'' m \<or> startswith m ''finished '' then
            Inr (if prev = Failed then prev else Success)
          else Inr prev)"

text \<open>The rule applied message by message, in order, as the aggregation loop applies it.\<close>

fun fold_status :: "status \<Rightarrow> json list \<Rightarrow> error + status" where
  "fold_status st [] = Inr st"
| "fold_status st (msg # msgs) =
     (case upd_status st msg of Inl err \<Rightarrow> Inl err | Inr st' \<Rightarrow> fold_status st' msgs)"

text \<open>
  The first loop of \<^verbatim>\<open>list_runs\<close>, over the lines of the scan, with \<^verbatim>\<open>inv_ids\<close> and
  \<^verbatim>\<open>inv_set\<close> as its state. An empty line and a line the decoder refuses are passed
  over; \<^verbatim>\<open>get\<close> needs a dict and \<^verbatim>\<open>fullmatch\<close> a text.
\<close>

fun discover ::
  "(string \<Rightarrow> error + json) \<Rightarrow> int \<Rightarrow> string list \<times> string set \<Rightarrow> string list
    \<Rightarrow> error + string list" where
  "discover loads limit (inv_ids, inv_set) [] = Inr inv_ids"
| "discover loads limit (inv_ids, inv_set) (line # lines) =
     (if line = [] then discover loads limit (inv_ids, inv_set) lines
      else
        case loads line of
          Inl exn \<Rightarrow> discover loads limit (inv_ids, inv_set) lines
        | Inr e \<Rightarrow>
            (case dict_get e ''INVOCATION_ID'' of
               Inl err \<Rightarrow> Inl err
             | Inr inv_id \<Rightarrow>
                 if \<not> truthy inv_id then discover loads limit (inv_ids, inv_set) lines
                 else
                   (case inv_id of
                      JStr i \<Rightarrow>
                        if \<not> INVOCATION_RE_fullmatch i then
                          discover loads limit (inv_ids, inv_set) lines
                        else if i \<in> inv_set then discover loads limit (inv_ids, inv_set) lines
                        else if int (length (inv_ids @ [i])) \<ge> limit then Inr (inv_ids @ [i])
                        else discover loads limit (inv_ids @ [i], insert i inv_set) lines
                    | v \<Rightarrow> Inl TypeError)))"

text \<open>
  The body of the second loop for one decoded record, on the four variables
  \<^verbatim>\<open>start_ms\<close>, \<^verbatim>\<open>end_ms\<close>, \<^verbatim>\<open>status\<close> and \<^verbatim>\<open>cpu_usage\<close>.
\<close>

type_synonym run_acc = "int option \<times> int option \<times> status \<times> int option"

fun agg_record ::
  "(string \<Rightarrow> int option) \<Rightarrow> run_acc \<Rightarrow> json \<Rightarrow> error + run_acc" where
  "agg_record rd (start_ms, end_ms, st, cpu_usage) e =
     (case dict_get e ''__REALTIME_TIMESTAMP'' of Inl err \<Rightarrow> Inl err | Inr tsv \<Rightarrow>
      case dict_get e ''CPU_USAGE_NSEC'' of Inl err \<Rightarrow> Inl err | Inr cpu \<Rightarrow>
      case dict_get e ''MESSAGE'' of Inl err \<Rightarrow> Inl err | Inr msg \<Rightarrow>
      case upd_status st msg of Inl err \<Rightarrow> Inl err | Inr st' \<Rightarrow>
        Inr (case usec_to_ms rd tsv of
               None \<Rightarrow> start_ms
             | Some ts_ms \<Rightarrow> Some (case start_ms of None \<Rightarrow> ts_ms | Some s \<Rightarrow> min s ts_ms),
             case usec_to_ms rd tsv of
               None \<Rightarrow> end_ms
             | Some ts_ms \<Rightarrow> Some (case end_ms of None \<Rightarrow> ts_ms | Some m \<Rightarrow> max m ts_ms),
             st',
             case (if cpu = JNull then None else py_int rd cpu) of
               None \<Rightarrow> cpu_usage
             | Some cpu_n \<Rightarrow> Some (case cpu_usage of None \<Rightarrow> cpu_n | Some c \<Rightarrow> max c cpu_n)))"

fun aggregate ::
  "(string \<Rightarrow> error + json) \<Rightarrow> (string \<Rightarrow> int option) \<Rightarrow> run_acc \<Rightarrow> string list
    \<Rightarrow> error + run_acc" where
  "aggregate loads rd acc [] = Inr acc"
| "aggregate loads rd acc (line # lines) =
     (if line = [] then aggregate loads rd acc lines
      else
        case loads line of
          Inl exn \<Rightarrow> aggregate loads rd acc lines
        | Inr e \<Rightarrow>
            (case agg_record rd acc e of
               Inl err \<Rightarrow> Inl err
             | Inr acc' \<Rightarrow> aggregate loads rd acc' lines))"

record run_summary =
  invocationId :: string
  startMs :: "int option"
  startIso :: "string option"
  endMs :: "int option"
  endIso :: "string option"
  durationMs :: "int option"
  status :: status
  cpuUsageNsec :: "int option"

text \<open>The summary of one invocation from the lines of its query.\<close>

definition summarize :: "env \<Rightarrow> string \<Rightarrow> string list \<Rightarrow> error + run_summary" where
  "summarize ev inv_id lines =
     (case aggregate (json_loads ev) (int_text ev) (None, None, Unknown, None) lines of
        Inl err \<Rightarrow> Inl err
      | Inr (start_ms, end_ms, st, cpu_usage) \<Rightarrow>
          (case ms_to_iso ev start_ms of Inl err \<Rightarrow> Inl err | Inr start_iso \<Rightarrow>
           case ms_to_iso ev end_ms of Inl err \<Rightarrow> Inl err | Inr end_iso \<Rightarrow>
             Inr \<lparr>invocationId = inv_id, startMs = start_ms, startIso = start_iso,
                  endMs = end_ms, endIso = end_iso,
                  durationMs = (case (start_ms, end_ms) of
                                  (Some s, Some m) \<Rightarrow> Some (m - s)
                                | other \<Rightarrow> None),
                  status = st, cpuUsageNsec = cpu_usage\<rparr>))"

fun runs_loop ::
  "env \<Rightarrow> string \<Rightarrow> string list \<Rightarrow> cmd list \<Rightarrow> (error + run_summary list) \<times> cmd list" where
  "runs_loop ev log_unit [] tr = (Inr [], tr)"
| "runs_loop ev log_unit (inv_id # inv_ids) tr =
     (case run ev [''journalctl'', ''--unit='' @ log_unit, ''INVOCATION_ID='' @ inv_id,
                   ''--no-pager'', ''-o'', ''json''] tr of
        (Inl err, tr1) \<Rightarrow> (Inl err, tr1)
      | (Inr raw, tr1) \<Rightarrow>
          (case summarize ev inv_id (splitlines raw) of
             Inl err \<Rightarrow> (Inl err, tr1)
           | Inr r \<Rightarrow>
               (case runs_loop ev log_unit inv_ids tr1 of
                  (Inl err, tr2) \<Rightarrow> (Inl err, tr2)
                | (Inr rs, tr2) \<Rightarrow> (Inr (r # rs), tr2))))"

record history =
  logUnit :: string
  runs :: "run_summary list"

definition list_runs ::
  "env \<Rightarrow> string \<Rightarrow> int \<Rightarrow> cmd list \<Rightarrow> (error + history) \<times> cmd list" where
  "list_runs ev unit limit tr =
     (if invalid_unit unit then (Inl (ValueError ''invalid unit''), tr)
      else if limit < 1 \<or> limit > 50 then (Inl (ValueError ''invalid limit''), tr)
      else
        case resolve_log_unit ev unit tr of
          (Inl err, tr1) \<Rightarrow> (Inl err, tr1)
        | (Inr log_unit, tr1) \<Rightarrow>
            (case run ev [''journalctl'', ''--unit='' @ log_unit, ''-n'', ''20000'',
                          ''--no-pager'', ''-o'', ''json''] tr1 of
               (Inl err, tr2) \<Rightarrow> (Inl err, tr2)
             | (Inr scan, tr2) \<Rightarrow>
                 (case discover (json_loads ev) limit ([], {}) (splitlines scan) of
                    Inl err \<Rightarrow> (Inl err, tr2)
                  | Inr inv_ids \<Rightarrow>
                      (case runs_loop ev log_unit inv_ids tr2 of
                         (Inl err, tr3) \<Rightarrow> (Inl err, tr3)
                       | (Inr rs, tr3) \<Rightarrow> (Inr \<lparr>logUnit = log_unit, runs = rs\<rparr>, tr3)))))"

definition logs_for_invocation ::
  "env \<Rightarrow> string \<Rightarrow> string \<Rightarrow> int \<Rightarrow> cmd list \<Rightarrow> (error + string) \<times> cmd list" where
  "logs_for_invocation ev unit invocation_id limit tr =
     (if invalid_unit unit then (Inl (ValueError ''invalid unit''), tr)
      else if invocation_id = [] \<or> \<not> INVOCATION_RE_fullmatch invocation_id then
        (Inl (ValueError ''invalid invocation''), tr)
      else if limit < 1 \<or> limit > 5000 then (Inl (ValueError ''invalid limit''), tr)
      else
        case resolve_log_unit ev unit tr of
          (Inl err, tr1) \<Rightarrow> (Inl err, tr1)
        | (Inr log_unit, tr1) \<Rightarrow>
            run ev [''journalctl'', ''--unit='' @ log_unit, ''INVOCATION_ID='' @ invocation_id,
                    ''-n'', str_of_int limit, ''--no-pager'', ''-o'', ''cat''] tr1)"

section \<open>The unit catalog\<close>

text \<open>
  A dict with text keys and text values, in insertion order; \<open>AList.update\<close> replaces the
  value of a key that is present and appends a new key, as assignment to a dict does.
\<close>

type_synonym dict = "(string \<times> string) list"

definition dict_update :: "dict \<Rightarrow> dict \<Rightarrow> dict" where
  "dict_update d other = fold (\<lambda>kv. AList.update (fst kv) (snd kv)) other d"

definition parse_unit_files :: "string \<Rightarrow> (string \<times> dict) list" where
  "parse_unit_files text =
     fold (\<lambda>line out.
             if strip line = [] then out
             else (case split_ws 1 (strip line) of
                     [unit, state] \<Rightarrow>
                       AList.update unit [(''unit'', unit), (''unitFileState'', state)] out
                   | parts \<Rightarrow> out))
          (splitlines text) []"

definition parse_units :: "string \<Rightarrow> (string \<times> dict) list" where
  "parse_units text =
     fold (\<lambda>line out.
             if strip line = [] then out
             else (case split_ws 4 (strip line) of
                     unit # load # active # sub # rest \<Rightarrow>
                       AList.update unit
                         [(''unit'', unit), (''loadState'', load), (''activeState'', active),
                          (''subState'', sub),
                          (''description'', case rest of [desc] \<Rightarrow> desc | other \<Rightarrow> [])] out
                   | parts \<Rightarrow> out))
          (splitlines text) []"

text \<open>\<^verbatim>\<open>x.get("unit", "")\<close>, the key both listings are sorted by.\<close>

definition unit_of :: "dict \<Rightarrow> string" where
  "unit_of x = (case map_of x ''unit'' of None \<Rightarrow> [] | Some u \<Rightarrow> u)"

text \<open>
  The names of both listings are visited in the order of a set, which is not fixed; every
  name gives one item and the items are then sorted by name, so the result does not depend
  on that order.
\<close>

definition list_units :: "env \<Rightarrow> cmd list \<Rightarrow> (error + dict list) \<times> cmd list" where
  "list_units ev tr =
     (case run ev [''systemctl'', ''list-unit-files'', ''--no-pager'', ''--no-legend''] tr of
        (Inl err, tr1) \<Rightarrow> (Inl err, tr1)
      | (Inr unit_files, tr1) \<Rightarrow>
          (case run ev [''systemctl'', ''list-units'', ''--all'', ''--no-pager'',
                        ''--no-legend''] tr1 of
             (Inl err, tr2) \<Rightarrow> (Inl err, tr2)
           | (Inr units, tr2) \<Rightarrow>
               (let a = parse_unit_files unit_files;
                    b = parse_units units;
                    merged = map (\<lambda>unit.
                               dict_update
                                 (dict_update [(''unit'', unit)]
                                    (case map_of a unit of None \<Rightarrow> [] | Some d \<Rightarrow> d))
                                 (case map_of b unit of None \<Rightarrow> [] | Some d \<Rightarrow> d))
                             (remdups (map fst a @ map fst b))
                in (Inr (sort_key unit_of merged), tr2))))"

definition list_targets :: "env \<Rightarrow> cmd list \<Rightarrow> (error + dict list) \<times> cmd list" where
  "list_targets ev tr =
     (case run ev [''systemctl'', ''list-units'', ''--type=target'', ''--all'', ''--no-pager'',
                   ''--no-legend''] tr of
        (Inl err, tr1) \<Rightarrow> (Inl err, tr1)
      | (Inr targets, tr1) \<Rightarrow> (Inr (sort_key unit_of (map snd (parse_units targets))), tr1))"

text \<open>
  The characters \<^verbatim>\<open>lstrip\<close> removes from a line of the dependency tree: space, tab,
  the bullets U+25CF and U+25CB, the star, and the box drawings U+251C, U+2514, U+2502 and
  U+2500.
\<close>

definition tree_chars :: "string list" where
  "tree_chars =
     ['' '', [CHR 0x09], [CHR 0xE2, CHR 0x97, CHR 0x8F], [CHR 0xE2, CHR 0x97, CHR 0x8B], ''*'',
      [CHR 0xE2, CHR 0x94, CHR 0x9C], [CHR 0xE2, CHR 0x94, CHR 0x94],
      [CHR 0xE2, CHR 0x94, CHR 0x82], [CHR 0xE2, CHR 0x94, CHR 0x80]]"

fun deps_loop :: "string set \<Rightarrow> string list \<Rightarrow> error + string set" where
  "deps_loop wanted [] = Inr wanted"
| "deps_loop wanted (line # lines) =
     (if lstrip_tokens tree_chars line = [] then deps_loop wanted lines
      else
        case split_ws 1 (lstrip_tokens tree_chars line) of
          [] \<Rightarrow> Inl IndexError
        | u # rest \<Rightarrow>
            if UNIT_RE_fullmatch u then deps_loop (insert u wanted) lines
            else deps_loop wanted lines)"

fun targets_loop ::
  "env \<Rightarrow> string set \<Rightarrow> string list \<Rightarrow> cmd list \<Rightarrow> (error + string set) \<times> cmd list" where
  "targets_loop ev wanted [] tr = (Inr wanted, tr)"
| "targets_loop ev wanted (t # ts) tr =
     (if invalid_unit t \<or> \<not> endswith t ''.target'' then targets_loop ev wanted ts tr
      else
        case run ev [''systemctl'', ''list-dependencies'', ''--all'', ''--plain'', ''--no-pager'',
                     ''--no-legend'', ''--'', t] tr of
          (Inl err, tr1) \<Rightarrow> (Inl err, tr1)
        | (Inr deps, tr1) \<Rightarrow>
            (case deps_loop (insert t wanted) (splitlines deps) of
               Inl err \<Rightarrow> (Inl err, tr1)
             | Inr wanted' \<Rightarrow> targets_loop ev wanted' ts tr1))"

definition units_for_targets ::
  "env \<Rightarrow> string list \<Rightarrow> cmd list \<Rightarrow> (error + dict list) \<times> cmd list" where
  "units_for_targets ev targets tr =
     (if targets = [] then list_units ev tr
      else
        case targets_loop ev {} targets tr of
          (Inl err, tr1) \<Rightarrow> (Inl err, tr1)
        | (Inr wanted, tr1) \<Rightarrow>
            if wanted = {} then list_units ev tr1
            else
              (case list_units ev tr1 of
                 (Inl err, tr2) \<Rightarrow> (Inl err, tr2)
               | (Inr items, tr2) \<Rightarrow>
                   (Inr (filter (\<lambda>u. case map_of u ''unit'' of
                                       None \<Rightarrow> False
                                     | Some n \<Rightarrow> n \<in> wanted) items), tr2)))"

record detail =
  detail_unit :: string
  properties :: dict
  cat :: string

definition unit_detail :: "env \<Rightarrow> string \<Rightarrow> cmd list \<Rightarrow> (error + detail) \<times> cmd list" where
  "unit_detail ev unit tr =
     (if invalid_unit unit then (Inl (ValueError ''invalid unit''), tr)
      else
        case run ev [''systemctl'', ''show'', ''--no-pager'', ''-p'', ''Id'', ''-p'', ''Description'',
                     ''-p'', ''LoadState'', ''-p'', ''ActiveState'', ''-p'', ''SubState'',
                     ''-p'', ''UnitFileState'', ''-p'', ''FragmentPath'', ''-p'', ''DropInPaths'',
                     ''-p'', ''Documentation'', ''-p'', ''After'', ''-p'', ''Requires'',
                     ''-p'', ''Wants'', ''--'', unit] tr of
          (Inl err, tr1) \<Rightarrow> (Inl err, tr1)
        | (Inr props_out, tr1) \<Rightarrow>
            (case run ev [''systemctl'', ''cat'', ''--no-pager'', ''--'', unit] tr1 of
               (Inl err, tr2) \<Rightarrow> (Inl err, tr2)
             | (Inr cat_out, tr2) \<Rightarrow>
                 (Inr \<lparr>detail_unit = unit,
                       properties =
                         fold (\<lambda>line props.
                                 if CHR ''='' \<in> set line then
                                   AList.update (takeWhile (\<lambda>c. c \<noteq> CHR ''='') line)
                                     (tl (dropWhile (\<lambda>c. c \<noteq> CHR ''='') line)) props
                                 else props)
                              (splitlines props_out) [],
                       cat = cat_out\<rparr>, tr2)))"

section \<open>Vocabulary of the properties\<close>

text \<open>A message that is a text, or a false value, which the rule reads as the empty text.\<close>

definition is_text :: "json \<Rightarrow> bool" where
  "is_text v = (case v of JStr s \<Rightarrow> True | w \<Rightarrow> \<not> truthy w)"

text \<open>
  The record a loop sees in a line: none for an empty line and for a line the decoder
  refuses.
\<close>

definition record_of :: "(string \<Rightarrow> error + json) \<Rightarrow> string \<Rightarrow> json option" where
  "record_of loads line =
     (if line = [] then None else case loads line of Inl exn \<Rightarrow> None | Inr e \<Rightarrow> Some e)"

definition records :: "(string \<Rightarrow> error + json) \<Rightarrow> string list \<Rightarrow> json list" where
  "records loads lines = List.map_filter (record_of loads) lines"

text \<open>The realtime time stamps, in milliseconds, of the records that carry a readable one.\<close>

definition stamps :: "(string \<Rightarrow> int option) \<Rightarrow> json list \<Rightarrow> int list" where
  "stamps rd es =
     List.map_filter
       (\<lambda>e. case dict_get e ''__REALTIME_TIMESTAMP'' of Inl err \<Rightarrow> None | Inr v \<Rightarrow> usec_to_ms rd v)
       es"

text \<open>The CPU usage values of the records that carry a readable one.\<close>

definition cpu_samples :: "(string \<Rightarrow> int option) \<Rightarrow> json list \<Rightarrow> int list" where
  "cpu_samples rd es =
     List.map_filter
       (\<lambda>e. case dict_get e ''CPU_USAGE_NSEC'' of Inl err \<Rightarrow> None | Inr v \<Rightarrow> py_int rd v) es"

definition min_of :: "int list \<Rightarrow> int option" where
  "min_of xs = (if xs = [] then None else Some (Min (set xs)))"

definition max_of :: "int list \<Rightarrow> int option" where
  "max_of xs = (if xs = [] then None else Some (Max (set xs)))"

text \<open>\<open>None\<close> below every number: the order in which a running maximum grows.\<close>

definition opt_le :: "int option \<Rightarrow> int option \<Rightarrow> bool" where
  "opt_le a b = (case a of None \<Rightarrow> True | Some x \<Rightarrow> (case b of None \<Rightarrow> False | Some y \<Rightarrow> x \<le> y))"

text \<open>The second loop as the fold of its body over the records of the lines.\<close>

fun agg_all ::
  "(string \<Rightarrow> int option) \<Rightarrow> run_acc \<Rightarrow> json list \<Rightarrow> error + run_acc" where
  "agg_all rd acc [] = Inr acc"
| "agg_all rd acc (e # es) =
     (case agg_record rd acc e of Inl err \<Rightarrow> Inl err | Inr acc' \<Rightarrow> agg_all rd acc' es)"

definition opt_list :: "int option \<Rightarrow> int list" where
  "opt_list a = (case a of None \<Rightarrow> [] | Some x \<Rightarrow> [x])"

text \<open>The two queries of \<^verbatim>\<open>list_runs\<close>, as the commands it issues.\<close>

definition scan_cmd :: "string \<Rightarrow> cmd" where
  "scan_cmd log_unit =
     [''journalctl'', ''--unit='' @ log_unit, ''-n'', ''20000'', ''--no-pager'', ''-o'', ''json'']"

definition invocation_cmd :: "string \<Rightarrow> string \<Rightarrow> cmd" where
  "invocation_cmd log_unit inv_id =
     [''journalctl'', ''--unit='' @ log_unit, ''INVOCATION_ID='' @ inv_id,
      ''--no-pager'', ''-o'', ''json'']"

text \<open>
  The well-formed invocation identifier of a record, if it has one, and the identifiers of
  a list in the order of their first occurrence.
\<close>

definition inv_of :: "json \<Rightarrow> string option" where
  "inv_of e =
     (case dict_get e ''INVOCATION_ID'' of
        Inr (JStr i) \<Rightarrow> if INVOCATION_RE_fullmatch i then Some i else None
      | other \<Rightarrow> None)"

definition ids_of :: "(string \<Rightarrow> error + json) \<Rightarrow> string list \<Rightarrow> string list" where
  "ids_of loads lines = List.map_filter inv_of (records loads lines)"

primrec first_seen :: "string list \<Rightarrow> string list" where
  "first_seen [] = []"
| "first_seen (x # xs) = x # removeAll x (first_seen xs)"

text \<open>
  A record of the journal's JSON export as the scan expects it: an object whose invocation
  identifier, if present, is a text or a false value.
\<close>

definition journal_record :: "json \<Rightarrow> bool" where
  "journal_record e =
     (case e of
        JObj kvs \<Rightarrow> (case map_of kvs ''INVOCATION_ID'' of None \<Rightarrow> True | Some v \<Rightarrow> is_text v)
      | other \<Rightarrow> False)"

text \<open>
  \<open>fires_before a b\<close>: the next fire \<open>a\<close> is not later than \<open>b\<close>, where an absent next fire
  is later than every time.
\<close>

definition fires_before :: "int option \<Rightarrow> int option \<Rightarrow> bool" where
  "fires_before a b =
     (case a of
        None \<Rightarrow> b = None
      | Some x \<Rightarrow> (case b of None \<Rightarrow> True | Some y \<Rightarrow> x \<le> y))"

text \<open>The other commands, as the functions issue them.\<close>

definition timers_cmd :: cmd where
  "timers_cmd = [''systemctl'', ''list-timers'', ''--all'', ''--no-pager'', ''--output=json'']"

definition unit_files_cmd :: cmd where
  "unit_files_cmd = [''systemctl'', ''list-unit-files'', ''--no-pager'', ''--no-legend'']"

definition units_cmd :: cmd where
  "units_cmd = [''systemctl'', ''list-units'', ''--all'', ''--no-pager'', ''--no-legend'']"

definition deps_cmd :: "string \<Rightarrow> cmd" where
  "deps_cmd t =
     [''systemctl'', ''list-dependencies'', ''--all'', ''--plain'', ''--no-pager'',
      ''--no-legend'', ''--'', t]"

text \<open>A name that \<^verbatim>\<open>units_for_targets\<close> passes over.\<close>

definition skipped_target :: "string \<Rightarrow> bool" where
  "skipped_target t = (invalid_unit t \<or> \<not> endswith t ''.target'')"

section \<open>A small host, for concrete runs\<close>

text \<open>
  Three invocations of \<open>job.service\<close>, the oldest \<open>inv_a\<close> and the latest \<open>inv_c\<close>; a unit
  \<open>odd.service\<close> with a journal entry that carries two invocation identifiers, which the
  journal's JSON export writes as an array; three timers, one of which activates a service
  whose name has 201 characters; and a catalog of two units. The target \<open>a.target\<close> is not in the catalog and its dependency listing
  is empty; any other query fails. The decoder is the table of the lines that occur, with
  their JSON values, and \<open>host_int\<close> the table of the numbers that occur as texts.
\<close>

definition inv_a :: string where "inv_a = replicate 32 (CHR ''a'')"
definition inv_b :: string where "inv_b = replicate 32 (CHR ''b'')"
definition inv_c :: string where "inv_c = replicate 32 (CHR ''c'')"

definition long_unit :: string where
  "long_unit = replicate 193 (CHR ''a'') @ ''.service''"

definition scan_line :: "string \<Rightarrow> string" where
  \<open>scan_line i = ''{"INVOCATION_ID":"'' @ i @ ''"}''\<close>

definition line_multi :: string where
  \<open>line_multi = ''{"INVOCATION_ID":["'' @ inv_a @ ''","'' @ inv_b @ ''"]}''\<close>

definition line_start :: string where
  \<open>line_start = ''{"__REALTIME_TIMESTAMP":"1700000000000000","MESSAGE":"Starting job"}''\<close>

definition line_exit :: string where
  \<open>line_exit = ''{"__REALTIME_TIMESTAMP":"1700000004000000","MESSAGE":"Main process exited"}''\<close>

definition line_done :: string where
  \<open>line_done = ''{"__REALTIME_TIMESTAMP":"1700000005000000","MESSAGE":"Deactivated successfully."}''\<close>

definition line_cpu :: "string \<Rightarrow> string" where
  \<open>line_cpu n = ''{"MESSAGE":"Consumed CPU time.","CPU_USAGE_NSEC":"'' @ n @ ''"}''\<close>

definition timers_out :: string where
  \<open>timers_out =
     ''[{"next":null,"last":null,"unit":"idle.timer","activates":"job.service"},'' @
     ''{"next":5000000,"last":null,"unit":"job.timer","activates":"job.service"},'' @
     ''{"next":null,"last":null,"unit":"x.timer","activates":"'' @ long_unit @ ''"}]''\<close>

definition host_json :: "(string \<times> json) list" where
  "host_json =
     [(scan_line inv_a, JObj [(''INVOCATION_ID'', JStr inv_a)]),
      (scan_line inv_b, JObj [(''INVOCATION_ID'', JStr inv_b)]),
      (scan_line inv_c, JObj [(''INVOCATION_ID'', JStr inv_c)]),
      (line_multi, JObj [(''INVOCATION_ID'', JArr [JStr inv_a, JStr inv_b])]),
      (line_start, JObj [(''__REALTIME_TIMESTAMP'', JStr ''1700000000000000''),
                         (''MESSAGE'', JStr ''Starting job'')]),
      (line_exit, JObj [(''__REALTIME_TIMESTAMP'', JStr ''1700000004000000''),
                        (''MESSAGE'', JStr ''Main process exited'')]),
      (line_done, JObj [(''__REALTIME_TIMESTAMP'', JStr ''1700000005000000''),
                        (''MESSAGE'', JStr ''Deactivated successfully.'')]),
      (line_cpu ''100'', JObj [(''MESSAGE'', JStr ''Consumed CPU time.''),
                               (''CPU_USAGE_NSEC'', JStr ''100'')]),
      (line_cpu ''50'', JObj [(''MESSAGE'', JStr ''Consumed CPU time.''),
                              (''CPU_USAGE_NSEC'', JStr ''50'')]),
      (line_cpu ''300'', JObj [(''MESSAGE'', JStr ''Consumed CPU time.''),
                               (''CPU_USAGE_NSEC'', JStr ''300'')]),
      (timers_out,
       JArr [JObj [(''next'', JNull), (''last'', JNull), (''unit'', JStr ''idle.timer''),
                   (''activates'', JStr ''job.service'')],
             JObj [(''next'', JInt 5000000), (''last'', JNull), (''unit'', JStr ''job.timer''),
                   (''activates'', JStr ''job.service'')],
             JObj [(''next'', JNull), (''last'', JNull), (''unit'', JStr ''x.timer''),
                   (''activates'', JStr long_unit)]])]"

definition host_loads :: "string \<Rightarrow> error + json" where
  "host_loads line =
     (case map_of host_json line of
        None \<Rightarrow> Inl (ValueError ''Expecting value'')
      | Some v \<Rightarrow> Inr v)"

definition host_int :: "string \<Rightarrow> int option" where
  "host_int s =
     map_of [(''1700000000000000'', 1700000000000000), (''1700000004000000'', 1700000004000000),
             (''1700000005000000'', 1700000005000000), (''100'', 100), (''50'', 50),
             (''300'', 300)] s"

definition host_iso :: "int \<Rightarrow> error + string" where
  "host_iso ms =
     (case map_of [(5000, ''1970-01-01T00:00:05+00:00''),
                   (1700000000000, ''2023-11-14T22:13:20+00:00''),
                   (1700000004000, ''2023-11-14T22:13:24+00:00''),
                   (1700000005000, ''2023-11-14T22:13:25+00:00'')] ms of
        None \<Rightarrow> Inl (ValueError ''year is out of range'')
      | Some s \<Rightarrow> Inr s)"

definition ok :: "string \<Rightarrow> error + proc" where
  "ok out = Inr \<lparr>returncode = 0, stdout = out, stderr = []\<rparr>"

definition host_run :: "cmd list \<Rightarrow> cmd \<Rightarrow> error + proc" where
  "host_run tr c =
     (if c = [''systemctl'', ''list-timers'', ''--all'', ''--no-pager'', ''--output=json'']
        then ok timers_out
      else if c = scan_cmd ''job.service''
        then ok (scan_line inv_c @ ''\<newline>'' @ ''-- no entry --'' @ ''\<newline>'' @
                 scan_line inv_b @ ''\<newline>'' @ scan_line inv_c @ ''\<newline>'')
      else if c = invocation_cmd ''job.service'' inv_c
        then ok (line_start @ ''\<newline>'' @ line_done @ ''\<newline>'' @ line_cpu ''300'' @ ''\<newline>'')
      else if c = invocation_cmd ''job.service'' inv_b
        then ok (line_start @ ''\<newline>'' @ line_exit @ ''\<newline>'' @ line_done @ ''\<newline>'')
      else if c = scan_cmd long_unit then ok []
      else if c = scan_cmd ''odd.service''
        then ok (scan_line inv_c @ ''\<newline>'' @ line_multi @ ''\<newline>'')
      else if c = [''systemctl'', ''list-unit-files'', ''--no-pager'', ''--no-legend'']
        then ok (''job.service enabled enabled'' @ ''\<newline>'' @
                 ''job.timer enabled enabled'' @ ''\<newline>'')
      else if c = [''systemctl'', ''list-units'', ''--all'', ''--no-pager'', ''--no-legend'']
        then ok (''job.service loaded inactive dead Nightly job'' @ ''\<newline>'')
      else if c = [''systemctl'', ''list-dependencies'', ''--all'', ''--plain'', ''--no-pager'',
                   ''--no-legend'', ''--'', ''a.target'']
        then ok []
      else Inr \<lparr>returncode = 1, stdout = [], stderr = ''unknown command''\<rparr>)"

definition host :: env where
  "host = \<lparr>subprocess_run = host_run, json_loads = host_loads, int_text = host_int,
            utc_isoformat = host_iso\<rparr>"

text \<open>What \<^verbatim>\<open>list_runs("job.service", 2)\<close> returns on the host.\<close>

definition host_history :: history where
  "host_history =
     \<lparr>logUnit = ''job.service'',
      runs =
        [\<lparr>invocationId = inv_c, startMs = Some 1700000000000,
           startIso = Some ''2023-11-14T22:13:20+00:00'', endMs = Some 1700000005000,
           endIso = Some ''2023-11-14T22:13:25+00:00'', durationMs = Some 5000,
           status = Success, cpuUsageNsec = Some 300\<rparr>,
         \<lparr>invocationId = inv_b, startMs = Some 1700000000000,
           startIso = Some ''2023-11-14T22:13:20+00:00'', endMs = Some 1700000005000,
           endIso = Some ''2023-11-14T22:13:25+00:00'', durationMs = Some 5000,
           status = Failed, cpuUsageNsec = None\<rparr>]\<rparr>"

text \<open>The catalog \<^verbatim>\<open>list_units()\<close> returns on the host.\<close>

definition host_catalog :: "dict list" where
  "host_catalog =
     [[(''unit'', ''job.service''), (''unitFileState'', ''enabled enabled''),
       (''loadState'', ''loaded''), (''activeState'', ''inactive''), (''subState'', ''dead''),
       (''description'', ''Nightly job'')],
      [(''unit'', ''job.timer''), (''unitFileState'', ''enabled enabled'')]]"

text \<open>The listing \<^verbatim>\<open>list_timers()\<close> returns on the host.\<close>

definition host_timer_list :: "timer_item list" where
  "host_timer_list =
     [\<lparr>timer = JStr ''idle.timer'', activates = JStr ''job.service'', nextMs = None,
        nextIso = None, lastMs = None, lastIso = None\<rparr>,
      \<lparr>timer = JStr ''job.timer'', activates = JStr ''job.service'', nextMs = Some 5000,
        nextIso = Some ''1970-01-01T00:00:05+00:00'', lastMs = None, lastIso = None\<rparr>,
      \<lparr>timer = JStr ''x.timer'', activates = JStr long_unit, nextMs = None,
        nextIso = None, lastMs = None, lastIso = None\<rparr>]"

section \<open>The status rule\<close>

lemmas text_eval = lower_def lower_char_def ascii_upper_def ascii_lower_def startswith_def

lemma upd_status_Failed: "upd_status Failed msg = Inr st \<Longrightarrow> st = Failed"
  by (auto simp: upd_status_def split: sum.splits if_splits)

lemma upd_status_text: "is_text msg \<Longrightarrow> \<exists>st. upd_status prev msg = Inr st"
  by (cases msg) (auto simp: upd_status_def is_text_def split: sum.splits if_splits option.splits)

lemma fold_status_append:
  "fold_status st (xs @ ys) =
     (case fold_status st xs of Inl err \<Rightarrow> Inl err | Inr st' \<Rightarrow> fold_status st' ys)"
  by (induction xs arbitrary: st) (auto split: sum.splits)

lemma fold_status_Failed: "fold_status Failed ys = Inr st \<Longrightarrow> st = Failed"
proof (induction ys)
  case Nil
  then show ?case by simp
next
  case (Cons y ys)
  then show ?case by (auto split: sum.splits dest: upd_status_Failed)
qed

lemma fold_status_text: "list_all is_text ys \<Longrightarrow> \<exists>st. fold_status prev ys = Inr st"
proof (induction ys arbitrary: prev)
  case Nil
  then show ?case by simp
next
  case (Cons y ys)
  from Cons.prems have "is_text y" and rest: "list_all is_text ys" by simp_all
  then obtain st where "upd_status prev y = Inr st" using upd_status_text by blast
  with Cons.IH [OF rest, of st] show ?case by simp
qed

text \<open>
  C1. Folding the status rule over any sequence of messages from \<open>Unknown\<close>: once the
  status is \<open>Failed\<close> after some messages, it is \<open>Failed\<close> after any further messages,
  whatever they say. If the further messages are texts the fold does return, and with
  \<open>Failed\<close>; a further message that is no text can only abort the fold, never give another
  status.
\<close>

theorem status_stays_failed:
  assumes "fold_status Unknown xs = Inr Failed"
  shows "(\<forall>st. fold_status Unknown (xs @ ys) = Inr st \<longrightarrow> st = Failed) \<and>
         (list_all is_text ys \<longrightarrow> fold_status Unknown (xs @ ys) = Inr Failed)"
proof -
  from assms have app: "fold_status Unknown (xs @ ys) = fold_status Failed ys"
    by (simp add: fold_status_append)
  have "\<forall>st. fold_status Failed ys = Inr st \<longrightarrow> st = Failed"
    using fold_status_Failed by blast
  moreover have "fold_status Failed ys = Inr Failed" if "list_all is_text ys"
    using fold_status_text [OF that, of Failed] fold_status_Failed by blast
  ultimately show ?thesis using app by simp
qed

theorem status_stays_failed_witness:
  "fold_status Unknown [JStr ''Main process exited, code=exited, status=1/FAILURE'']
     = Inr Failed \<and>
   fold_status Unknown
     ([JStr ''Main process exited, code=exited, status=1/FAILURE''] @
      [JStr ''Finished Nightly backup.'', JStr ''backup.service: Deactivated successfully.''])
     = Inr Failed"
proof -
  have h: "fold_status Unknown [JStr ''Main process exited, code=exited, status=1/FAILURE'']
      = Inr Failed"
    by (simp add: upd_status_def text_eval)
  have t: "list_all is_text
      [JStr ''Finished Nightly backup.'', JStr ''backup.service: Deactivated successfully.'']"
    by (simp add: is_text_def)
  from status_stays_failed [OF h] t h show ?thesis by blast
qed

text \<open>
  C9. Within one message failure wins: for every previous status, a message whose lowered
  text contains \<open>failed\<close>, \<open>error\<close> or \<open>exited\<close> gives \<open>Failed\<close>, also when it contains
  \<open>deactivated successfully\<close> or starts with \<open>finished\<close>.
\<close>

theorem failure_takes_precedence:
  assumes "contains ''failed'' (lower m) \<or> contains ''error'' (lower m)
           \<or> contains ''exited'' (lower m)"
  shows "upd_status prev (JStr m) = Inr Failed"
  using assms by (simp add: upd_status_def)

theorem failure_takes_precedence_witness:
  "upd_status Success (JStr ''Finished with ERROR; Deactivated successfully'') = Inr Failed"
proof -
  have "contains ''error'' (lower ''Finished with ERROR; Deactivated successfully'')"
    by (simp add: text_eval)
  then show ?thesis using failure_takes_precedence by blast
qed

section \<open>Aggregation of one run\<close>

lemma records_Cons:
  "records loads (line # lines) =
     (case record_of loads line of None \<Rightarrow> records loads lines | Some e \<Rightarrow> e # records loads lines)"
  by (simp add: records_def List.map_filter_simps split: option.splits)

lemma records_Nil: "records loads [] = []"
  by (simp add: records_def List.map_filter_simps)

lemma aggregate_agg_all: "aggregate loads rd acc lines = agg_all rd acc (records loads lines)"
  by (induction lines arbitrary: acc)
     (auto simp: records_Cons records_Nil record_of_def split: sum.splits)

lemma min_of_Cons: "min_of (x # xs) = Some (case min_of xs of None \<Rightarrow> x | Some m \<Rightarrow> min x m)"
  by (simp add: min_of_def)

lemma max_of_Cons: "max_of (x # xs) = Some (case max_of xs of None \<Rightarrow> x | Some m \<Rightarrow> max x m)"
  by (simp add: max_of_def)

lemma agg_record_step:
  assumes "agg_record rd (s, e, st, c) r = Inr (s', e', st', c')"
  shows "min_of (opt_list s' @ xs) = min_of (opt_list s @ stamps rd [r] @ xs)"
    and "max_of (opt_list e' @ xs) = max_of (opt_list e @ stamps rd [r] @ xs)"
    and "max_of (opt_list c' @ ys) = max_of (opt_list c @ cpu_samples rd [r] @ ys)"
  using assms
  by (auto simp: opt_list_def stamps_def cpu_samples_def List.map_filter_simps min_of_Cons max_of_Cons
      min.assoc max.assoc min.left_commute max.left_commute
      split: sum.splits option.splits if_splits)


lemma stamps_Cons: "stamps rd (r # es) = stamps rd [r] @ stamps rd es"
  by (simp add: stamps_def List.map_filter_simps split: option.splits)

lemma cpu_samples_Cons: "cpu_samples rd (r # es) = cpu_samples rd [r] @ cpu_samples rd es"
  by (simp add: cpu_samples_def List.map_filter_simps split: option.splits)

lemma agg_all_result:
  "agg_all rd (s, e, st, c) es = Inr (s', e', st', c') \<Longrightarrow>
     s' = min_of (opt_list s @ stamps rd es) \<and> e' = max_of (opt_list e @ stamps rd es) \<and>
     c' = max_of (opt_list c @ cpu_samples rd es)"
proof (induction es arbitrary: s e st c)
  case Nil
  then show ?case by (auto simp: opt_list_def min_of_def max_of_def stamps_def cpu_samples_def
        List.map_filter_simps split: option.splits)
next
  case (Cons r es)
  from Cons.prems obtain s1 e1 st1 c1 where
    step: "agg_record rd (s, e, st, c) r = Inr (s1, e1, st1, c1)" and
    rest: "agg_all rd (s1, e1, st1, c1) es = Inr (s', e', st', c')"
    by (auto split: sum.splits)
  from Cons.IH [OF rest] agg_record_step [OF step] show ?case
    by (simp add: stamps_Cons [of rd r es] cpu_samples_Cons [of rd r es])
qed

lemma agg_all_append:
  "agg_all rd acc (xs @ ys) =
     (case agg_all rd acc xs of Inl err \<Rightarrow> Inl err | Inr acc' \<Rightarrow> agg_all rd acc' ys)"
  by (induction xs arbitrary: acc) (auto split: sum.splits)

lemma records_append: "records loads (xs @ ys) = records loads xs @ records loads ys"
  by (induction xs) (auto simp: records_Cons records_Nil split: option.splits)

lemma cpu_samples_append: "cpu_samples rd (xs @ ys) = cpu_samples rd xs @ cpu_samples rd ys"
proof (induction xs)
  case Nil
  then show ?case by (simp add: cpu_samples_def List.map_filter_simps)
next
  case (Cons x xs)
  then show ?case using cpu_samples_Cons [of rd x xs] cpu_samples_Cons [of rd x "xs @ ys"] by simp
qed

lemma max_of_append_le: "opt_le (max_of xs) (max_of (xs @ ys))"
  by (auto simp: opt_le_def max_of_def split: option.splits)

lemma min_le_max_of: "min_of xs = Some a \<Longrightarrow> max_of xs = Some b \<Longrightarrow> a \<le> b"
  by (auto simp: min_of_def max_of_def split: if_splits)

lemma summarize_fields:
  assumes "summarize ev inv_id lines = Inr r"
  shows "startMs r = min_of (stamps (int_text ev) (records (json_loads ev) lines))"
    and "endMs r = max_of (stamps (int_text ev) (records (json_loads ev) lines))"
    and "cpuUsageNsec r = max_of (cpu_samples (int_text ev) (records (json_loads ev) lines))"
    and "durationMs r = (case (startMs r, endMs r) of (Some s, Some m) \<Rightarrow> Some (m - s) | other \<Rightarrow> None)"
    and "invocationId r = inv_id"
proof -
  from assms obtain s e st c where
    agg: "aggregate (json_loads ev) (int_text ev) (None, None, Unknown, None) lines = Inr (s, e, st, c)" and
    r: "startMs r = s" "endMs r = e" "cpuUsageNsec r = c" "invocationId r = inv_id"
       "durationMs r = (case (s, e) of (Some a, Some b) \<Rightarrow> Some (b - a) | other \<Rightarrow> None)"
    by (auto simp: summarize_def split: sum.splits prod.splits)
  from agg have "agg_all (int_text ev) (None, None, Unknown, None) (records (json_loads ev) lines) = Inr (s, e, st, c)"
    by (simp add: aggregate_agg_all)
  from agg_all_result [OF this] r show
    "startMs r = min_of (stamps (int_text ev) (records (json_loads ev) lines))"
    "endMs r = max_of (stamps (int_text ev) (records (json_loads ev) lines))"
    "cpuUsageNsec r = max_of (cpu_samples (int_text ev) (records (json_loads ev) lines))"
    by (simp_all add: opt_list_def)
  from r show "durationMs r = (case (startMs r, endMs r) of (Some s, Some m) \<Rightarrow> Some (m - s) | other \<Rightarrow> None)"
    by simp
  from r show "invocationId r = inv_id" by simp
qed

lemma summarize_duration:
  assumes "summarize ev inv_id lines = Inr r"
  shows "(durationMs r \<noteq> None) = (startMs r \<noteq> None \<and> endMs r \<noteq> None)"
    and "durationMs r = Some d \<Longrightarrow>
           \<exists>s m. startMs r = Some s \<and> endMs r = Some m \<and> d = m - s \<and> 0 \<le> d"
proof -
  note f = summarize_fields [OF assms]
  show "(durationMs r \<noteq> None) = (startMs r \<noteq> None \<and> endMs r \<noteq> None)"
    by (simp add: f(4) split: option.splits)
  assume d: "durationMs r = Some d"
  then obtain s m where sm: "startMs r = Some s" "endMs r = Some m" "d = m - s"
    by (auto simp: f(4) split: option.splits)
  with f(1,2) min_le_max_of have "s \<le> m" by metis
  with sm show "\<exists>s m. startMs r = Some s \<and> endMs r = Some m \<and> d = m - s \<and> 0 \<le> d"
    by simp
qed

section \<open>Discovery of invocations\<close>

lemma first_seen_filter: "first_seen (filter P xs) = filter P (first_seen xs)"
proof (induction xs)
  case Nil
  then show ?case by simp
next
  case (Cons x xs)
  show ?case
  proof (cases "P x")
    case True
    then show ?thesis using Cons.IH by (simp add: removeAll_filter_not_eq) (metis filter_filter)
  next
    case False
    have "filter P (removeAll x ys) = filter P ys" for ys
      using False by (induction ys) auto
    with False Cons.IH show ?thesis by simp
  qed
qed

text \<open>One step of the scan on a record, for a state below the limit.\<close>

lemma discover_skip:
  assumes "record_of loads line = None"
  shows "discover loads limit (ids, S) (line # lines) = discover loads limit (ids, S) lines"
  using assms by (auto simp: record_of_def split: if_splits sum.splits)

lemma discover_record_none:
  assumes "record_of loads line = Some e" "journal_record e" "inv_of e = None"
  shows "discover loads limit (ids, S) (line # lines) = discover loads limit (ids, S) lines"
  using assms
  by (cases e)
     (auto simp: record_of_def journal_record_def inv_of_def is_text_def
        split: if_splits sum.splits option.splits json.splits)

lemma discover_record_some:
  assumes "record_of loads line = Some e" "inv_of e = Some i"
  shows "discover loads limit (ids, S) (line # lines) =
     (if i \<in> S then discover loads limit (ids, S) lines
      else if limit \<le> int (length (ids @ [i])) then Inr (ids @ [i])
      else discover loads limit (ids @ [i], insert i S) lines)"
  using assms
  by (cases e)
     (auto simp: record_of_def inv_of_def INVOCATION_RE_fullmatch_def
        split: if_splits sum.splits option.splits json.splits)

lemma ids_of_Cons:
  "ids_of loads (line # lines) =
     (case record_of loads line of
        None \<Rightarrow> ids_of loads lines
      | Some e \<Rightarrow> (case inv_of e of None \<Rightarrow> ids_of loads lines | Some i \<Rightarrow> i # ids_of loads lines))"
  by (simp add: ids_of_def records_Cons List.map_filter_simps split: option.splits)

lemma discover_general:
  assumes "list_all journal_record (records loads lines)"
    and "int (length ids) < limit" and "S = set ids"
  shows "discover loads limit (ids, S) lines =
     Inr (take (nat limit) (ids @ first_seen (filter (\<lambda>i. i \<notin> set ids) (ids_of loads lines))))"
  using assms
proof (induction lines arbitrary: ids S)
  case Nil
  then show ?case by (simp add: ids_of_def records_Nil List.map_filter_simps)
next
  case (Cons line lines)
  show ?case
  proof (cases "record_of loads line")
    case None
    with Cons show ?thesis by (simp add: discover_skip ids_of_Cons records_Cons del: discover.simps)
  next
    case (Some e)
    with Cons.prems have je: "journal_record e" and rest: "list_all journal_record (records loads lines)"
      by (simp_all add: records_Cons)
    show ?thesis
    proof (cases "inv_of e")
      case None
      with Some je rest Cons show ?thesis
        by (simp add: discover_record_none ids_of_Cons del: discover.simps)
    next
      case (Some i)
      note step = discover_record_some [OF \<open>record_of loads line = Some e\<close> Some, of limit ids S lines]
      show ?thesis
      proof (cases "i \<in> S")
        case True
        with step Cons rest Some \<open>record_of loads line = Some e\<close> show ?thesis
          by (simp add: ids_of_Cons del: discover.simps)
      next
        case False
        then have notin: "i \<notin> set ids" using Cons.prems by simp
        let ?rest = "filter (\<lambda>j. j \<notin> set ids) (ids_of loads lines)"
        have rhs: "ids @ first_seen (filter (\<lambda>j. j \<notin> set ids) (ids_of loads (line # lines)))
            = (ids @ [i]) @ first_seen (filter (\<lambda>j. j \<notin> set (ids @ [i])) (ids_of loads lines))"
        proof -
          have "filter (\<lambda>j. j \<notin> set (ids @ [i])) (ids_of loads lines) = filter (\<lambda>j. j \<noteq> i) ?rest"
            by (auto intro: filter_cong)
          then have "first_seen (filter (\<lambda>j. j \<notin> set (ids @ [i])) (ids_of loads lines))
              = removeAll i (first_seen ?rest)"
            by (simp add: first_seen_filter removeAll_filter_not_eq) (metis (mono_tags, lifting) filter_cong)
          with notin Some \<open>record_of loads line = Some e\<close> show ?thesis
            by (simp add: ids_of_Cons)
        qed
        show ?thesis
        proof (cases "limit \<le> int (length (ids @ [i]))")
          case True
          with Cons.prems have "nat limit = length (ids @ [i])" by simp
          with step False True rhs show ?thesis by (simp del: discover.simps)
        next
          case lt: False
          with step False have "discover loads limit (ids, S) (line # lines)
              = discover loads limit (ids @ [i], insert i S) lines" by (simp del: discover.simps)
          also have "\<dots> = Inr (take (nat limit) ((ids @ [i]) @
              first_seen (filter (\<lambda>j. j \<notin> set (ids @ [i])) (ids_of loads lines))))"
            using lt Cons.prems by (intro Cons.IH [OF rest]) auto
          finally show ?thesis using rhs by (simp del: discover.simps)
        qed
      qed
    qed
  qed
qed


lemma discover_stop:
  assumes "discover loads limit (ids, S) xs = Inr out" "int (length ids) < limit"
    "limit \<le> int (length out)"
  shows "discover loads limit (ids, S) (xs @ ys) = Inr out"
  using assms
proof (induction xs arbitrary: ids S)
  case Nil
  then show ?case by simp
next
  case (Cons line xs)
  then show ?case
    by (auto split: if_splits sum.splits json.splits)
qed

lemma discover_invariant:
  assumes "discover loads limit (ids, S) lines = Inr out" "S = set ids" "distinct ids"
    "list_all INVOCATION_RE_fullmatch ids" "int (length ids) < limit"
  shows "distinct out \<and> list_all INVOCATION_RE_fullmatch out \<and> int (length out) \<le> limit"
  using assms
proof (induction lines arbitrary: ids S)
  case Nil
  then show ?case by simp
next
  case (Cons line lines)
  show ?case
  proof (cases "discover loads limit (ids, S) (line # lines) = discover loads limit (ids, S) lines")
    case True
    with Cons show ?thesis by (simp del: discover.simps)
  next
    case False
    with Cons.prems(1) obtain i where i: "INVOCATION_RE_fullmatch i" "i \<notin> S" and
      res: "if limit \<le> int (length (ids @ [i])) then out = ids @ [i]
            else discover loads limit (ids @ [i], insert i S) lines = Inr out"
      by (auto split: if_splits sum.splits json.splits)
    show ?thesis
    proof (cases "limit \<le> int (length (ids @ [i]))")
      case True
      with res i Cons.prems show ?thesis by auto
    next
      case lt: False
      with res have rec: "discover loads limit (ids @ [i], insert i S) lines = Inr out" by simp
      show ?thesis
        using lt i Cons.prems by (intro Cons.IH [OF rec]) auto
    qed
  qed
qed

lemma first_seen_set: "set (first_seen xs) = set xs"
  by (induction xs) auto

lemma first_seen_distinct: "distinct (first_seen xs)"
  by (induction xs) (auto simp: distinct_removeAll)

text \<open>
  Discovery over lines of which every one that decodes is a journal record: the result is
  the first \<open>limit\<close> of the distinct well-formed identifiers in the order of their first
  occurrence; empty lines, lines the decoder refuses and records without a well-formed
  identifier contribute nothing. Once \<open>limit\<close> identifiers are found the scan has stopped:
  whatever lines follow, the result is the same. The instance below is the store order
  C, B, A, C, B with limit 2.
\<close>

lemma discovery_first_seen:
  assumes "1 \<le> limit" "limit \<le> 50" "list_all journal_record (records loads lines)"
  shows "discover loads limit ([], {}) lines
           = Inr (take (nat limit) (first_seen (ids_of loads lines))) \<and>
         (\<forall>more. limit \<le> int (length (first_seen (ids_of loads lines))) \<longrightarrow>
            discover loads limit ([], {}) (lines @ more) = discover loads limit ([], {}) lines)"
proof -
  from assms have res: "discover loads limit ([], {}) lines
      = Inr (take (nat limit) (first_seen (ids_of loads lines)))"
    using discover_general [of loads lines "[]" limit "{}"] by simp
  have "discover loads limit ([], {}) (lines @ more) = discover loads limit ([], {}) lines"
    if "limit \<le> int (length (first_seen (ids_of loads lines)))" for more
  proof -
    from that assms(1) have "limit \<le> int (length (take (nat limit) (first_seen (ids_of loads lines))))"
      by simp
    with res assms(1) show ?thesis
      using discover_stop [of loads limit "[]" "{}" lines _ more] by simp
  qed
  with res show ?thesis by blast
qed

lemma discovery_first_seen_host:
  "discover host_loads 2 ([], {})
     [scan_line inv_c, scan_line inv_b, scan_line inv_a, scan_line inv_c, scan_line inv_b]
     = Inr [inv_c, inv_b] \<and>
   discover host_loads 2 ([], {})
     ([scan_line inv_c, scan_line inv_b, scan_line inv_a, scan_line inv_c, scan_line inv_b]
        @ [''[]''])
     = Inr [inv_c, inv_b] \<and>
   discover host_loads 2 ([], {}) [''-- no entry --'', [], scan_line inv_c] = Inr [inv_c]"
proof -
  let ?L = "[scan_line inv_c, scan_line inv_b, scan_line inv_a, scan_line inv_c, scan_line inv_b]"
  let ?M = "[''-- no entry --'', [], scan_line inv_c]"
  have typed: "list_all journal_record (records host_loads ?L)"
    "list_all journal_record (records host_loads ?M)"
    by code_simp+
  have ids: "take (nat 2) (first_seen (ids_of host_loads ?L)) = [inv_c, inv_b]"
    "take (nat 2) (first_seen (ids_of host_loads ?M)) = [inv_c]"
    "(2::int) \<le> int (length (first_seen (ids_of host_loads ?L)))"
    by code_simp+
  have small: "(1::int) \<le> 2" "(2::int) \<le> 50" by simp_all
  note first = discovery_first_seen [OF small typed(1)]
  note second = discovery_first_seen [OF small typed(2)]
  from first ids(1) have l: "discover host_loads 2 ([], {}) ?L = Inr [inv_c, inv_b]"
    by (simp only:)
  moreover from first ids(3) l
  have "discover host_loads 2 ([], {}) (?L @ [''[]'']) = Inr [inv_c, inv_b]"
    by (simp only:)
  moreover from second ids(2) have "discover host_loads 2 ([], {}) ?M = Inr [inv_c]"
    by (simp only:)
  ultimately show ?thesis by blast
qed

text \<open>
  C3 does not hold of the code in full. The order, the limit and the early stop are as
  stated above, and a line the decoder refuses is passed over; but only the decoding is
  guarded. A line that decodes to a record whose invocation identifier is an array
  reaches \<^verbatim>\<open>fullmatch\<close> with a value that is no text: the scan raises \<^verbatim>\<open>TypeError\<close>
  and \<^verbatim>\<open>list_runs\<close> fails with it. On the host \<open>odd.service\<close> has such an entry
  after one good record.
\<close>

theorem scan_aborts_on_array_id:
  "host_loads line_multi = Inr (JObj [(''INVOCATION_ID'', JArr [JStr inv_a, JStr inv_b])]) \<and>
   discover host_loads 2 ([], {}) [scan_line inv_c, line_multi] = Inl TypeError \<and>
   list_runs host ''odd.service'' 2 [] = (Inl TypeError, [scan_cmd ''odd.service''])"
proof -
  have "host_loads line_multi = Inr (JObj [(''INVOCATION_ID'', JArr [JStr inv_a, JStr inv_b])])"
    by code_simp
  moreover have "discover host_loads 2 ([], {}) [scan_line inv_c, line_multi] = Inl TypeError"
    by code_simp
  moreover
  have "list_runs host ''odd.service'' 2 [] = (Inl TypeError, [scan_cmd ''odd.service''])"
    by code_simp
  ultimately show ?thesis by (intro conjI)
qed

section \<open>The history of a unit\<close>

lemma run_trace: "run ev c tr = (res, tr1) \<Longrightarrow> tr1 = tr @ [c]"
  by (auto simp: run_def Let_def split: sum.splits if_splits)

lemma runs_loop_summaries:
  assumes "runs_loop ev log_unit ids tr = (Inr rs, tr')"
  shows "map invocationId rs = ids \<and>
         (\<forall>r\<in>set rs. \<exists>tr0 raw.
             run ev (invocation_cmd log_unit (invocationId r)) tr0
               = (Inr raw, tr0 @ [invocation_cmd log_unit (invocationId r)]) \<and>
             summarize ev (invocationId r) (splitlines raw) = Inr r)"
  using assms
proof (induction ids arbitrary: tr rs)
  case Nil
  then show ?case by simp
next
  case (Cons i ids)
  from Cons.prems obtain raw tr1 r rest where
    q: "run ev (invocation_cmd log_unit i) tr = (Inr raw, tr1)" and
    s: "summarize ev i (splitlines raw) = Inr r" and
    l: "runs_loop ev log_unit ids tr1 = (Inr rest, tr')" and
    rs: "rs = r # rest"
    by (auto simp: invocation_cmd_def split: sum.splits prod.splits)
  from q have tr1: "tr1 = tr @ [invocation_cmd log_unit i]" by (rule run_trace)
  from s have id: "invocationId r = i" by (rule summarize_fields(5))
  from Cons.IH [OF l] q s tr1 id rs show ?case by auto
qed

lemma list_runs_Inr:
  assumes "list_runs ev unit limit tr = (Inr h, tr')"
  shows "\<not> invalid_unit unit \<and> 1 \<le> limit \<and> limit \<le> 50 \<and>
         (\<exists>tr1 tr2 scan ids.
            resolve_log_unit ev unit tr = (Inr (logUnit h), tr1) \<and>
            run ev (scan_cmd (logUnit h)) tr1 = (Inr scan, tr2) \<and>
            discover (json_loads ev) limit ([], {}) (splitlines scan) = Inr ids \<and>
            runs_loop ev (logUnit h) ids tr2 = (Inr (runs h), tr'))"
  using assms
  by (auto simp: list_runs_def scan_cmd_def split: if_splits sum.splits prod.splits)

text \<open>
  C2. Every run summary that \<^verbatim>\<open>list_runs\<close> returns has a duration exactly when it has
  both a start and an end, the duration is end minus start and is not negative, and the
  start and the end are the least and the greatest readable time stamp of the records
  that the query for this invocation returned.
\<close>

theorem duration_presence:
  assumes "list_runs ev unit limit tr = (Inr h, tr')" and "r \<in> set (runs h)"
  shows "(durationMs r \<noteq> None) = (startMs r \<noteq> None \<and> endMs r \<noteq> None) \<and>
         (\<forall>d. durationMs r = Some d \<longrightarrow>
            (\<exists>s m. startMs r = Some s \<and> endMs r = Some m \<and> d = m - s \<and> 0 \<le> d)) \<and>
         (\<exists>tr0 raw.
            run ev (invocation_cmd (logUnit h) (invocationId r)) tr0
              = (Inr raw, tr0 @ [invocation_cmd (logUnit h) (invocationId r)]) \<and>
            startMs r = min_of (stamps (int_text ev) (records (json_loads ev) (splitlines raw))) \<and>
            endMs r = max_of (stamps (int_text ev) (records (json_loads ev) (splitlines raw))))"
proof -
  from list_runs_Inr [OF assms(1)] obtain ids tr2 where
    "runs_loop ev (logUnit h) ids tr2 = (Inr (runs h), tr')"
    by blast
  from runs_loop_summaries [OF this] assms(2) obtain tr0 raw where
    q: "run ev (invocation_cmd (logUnit h) (invocationId r)) tr0
          = (Inr raw, tr0 @ [invocation_cmd (logUnit h) (invocationId r)])" and
    s: "summarize ev (invocationId r) (splitlines raw) = Inr r"
    by blast
  from summarize_duration [OF s] summarize_fields(1,2) [OF s] q show ?thesis
    by blast
qed

text \<open>
  C10. What \<^verbatim>\<open>list_runs\<close> returns has at most \<open>limit\<close> runs, with pairwise distinct
  invocation identifiers, each of exactly 32 characters among the digits and \<open>a\<close> to \<open>f\<close>.
\<close>

theorem history_bounds:
  assumes "list_runs ev unit limit tr = (Inr h, tr')"
  shows "int (length (runs h)) \<le> limit \<and> distinct (map invocationId (runs h)) \<and>
         (\<forall>r\<in>set (runs h). length (invocationId r) = 32 \<and>
            set (invocationId r) \<subseteq> set ''0123456789abcdef'')"
proof -
  from list_runs_Inr [OF assms] obtain ids tr2 scan where
    lim: "1 \<le> limit" and
    d: "discover (json_loads ev) limit ([], {}) (splitlines scan) = Inr ids" and
    l: "runs_loop ev (logUnit h) ids tr2 = (Inr (runs h), tr')"
    by blast
  from runs_loop_summaries [OF l] have ids: "map invocationId (runs h) = ids" by blast
  from discover_invariant [OF d] lim
  have inv: "distinct ids" "list_all INVOCATION_RE_fullmatch ids" "int (length ids) \<le> limit"
    by simp_all
  from ids have len: "length (runs h) = length ids" by (metis length_map)
  have "length (invocationId r) = 32 \<and> set (invocationId r) \<subseteq> set ''0123456789abcdef''"
    if "r \<in> set (runs h)" for r
  proof -
    from that ids have "invocationId r \<in> set ids" by (metis image_eqI set_map)
    with inv(2) have "INVOCATION_RE_fullmatch (invocationId r)" by (simp add: list_all_iff)
    then have "length (invocationId r) = 32"
      and "set (invocationId r) \<subseteq> set (ascii_digits @ ''abcdef'')"
      unfolding INVOCATION_RE_fullmatch_def list_all_iff by blast+
    moreover have "ascii_digits @ ''abcdef'' = ''0123456789abcdef''"
      unfolding ascii_digits_def by (rule append.simps append_Nil2 refl | simp only: append.simps)+
    ultimately show ?thesis by (simp only:)
  qed
  with inv ids len show ?thesis by simp
qed

lemma agg_all_prefix:
  assumes "agg_all rd acc (xs @ ys) = Inr out"
  shows "\<exists>mid. agg_all rd acc xs = Inr mid"
  using assms by (auto simp: agg_all_append split: sum.splits)

text \<open>
  C7. The CPU usage of a summary is the greatest of the CPU usage values of the run's
  records that \<^verbatim>\<open>int\<close> reads, whatever it reads in a text, and is absent when there is
  none; as a running value over the lines it
  never decreases: after any \<open>n\<close> lines it is at most what it is after any \<open>m \<ge> n\<close> lines.
  The instance below has the samples 100, 50 and 300.
\<close>

theorem cpu_usage_is_maximum:
  assumes "summarize ev inv_id lines = Inr r"
  shows "cpuUsageNsec r = max_of (cpu_samples (int_text ev) (records (json_loads ev) lines)) \<and>
         (\<forall>n m. n \<le> m \<longrightarrow>
            (\<exists>s1 e1 st1 c1 s2 e2 st2 c2.
               aggregate (json_loads ev) (int_text ev) (None, None, Unknown, None) (take n lines)
                 = Inr (s1, e1, st1, c1) \<and>
               aggregate (json_loads ev) (int_text ev) (None, None, Unknown, None) (take m lines)
                 = Inr (s2, e2, st2, c2) \<and>
               opt_le c1 c2))"
proof -
  let ?loads = "json_loads ev"
  let ?init = "(None, None, Unknown, None) :: run_acc"
  from assms obtain out where full: "aggregate ?loads (int_text ev) ?init lines = Inr out"
    by (auto simp: summarize_def split: sum.splits)
  have prefix: "\<exists>s e st c. aggregate ?loads (int_text ev) ?init (take k lines) = Inr (s, e, st, c) \<and>
      c = max_of (cpu_samples (int_text ev) (records ?loads (take k lines)))" for k
  proof -
    from full have "agg_all (int_text ev) ?init (records ?loads (take k lines @ drop k lines)) = Inr out"
      by (simp add: aggregate_agg_all)
    then obtain mid where mid: "agg_all (int_text ev) ?init (records ?loads (take k lines)) = Inr mid"
      using agg_all_prefix by (metis records_append)
    obtain s e st c where "mid = (s, e, st, c)" by (cases mid) auto
    with mid agg_all_result [of "int_text ev" None None Unknown None "records ?loads (take k lines)" s e st c]
    show ?thesis by (simp add: aggregate_agg_all opt_list_def)
  qed
  have "\<exists>s1 e1 st1 c1 s2 e2 st2 c2.
      aggregate ?loads (int_text ev) ?init (take n lines) = Inr (s1, e1, st1, c1) \<and>
      aggregate ?loads (int_text ev) ?init (take m lines) = Inr (s2, e2, st2, c2) \<and> opt_le c1 c2"
    if "n \<le> m" for n m
  proof -
    from prefix [of n] obtain s1 e1 st1 c1 where
      a: "aggregate ?loads (int_text ev) ?init (take n lines) = Inr (s1, e1, st1, c1)"
         "c1 = max_of (cpu_samples (int_text ev) (records ?loads (take n lines)))" by blast
    from prefix [of m] obtain s2 e2 st2 c2 where
      b: "aggregate ?loads (int_text ev) ?init (take m lines) = Inr (s2, e2, st2, c2)"
         "c2 = max_of (cpu_samples (int_text ev) (records ?loads (take m lines)))" by blast
    from that have "take m lines = take n lines @ take (m - n) (drop n lines)"
      by (metis le_add_diff_inverse take_add)
    then have "cpu_samples (int_text ev) (records ?loads (take m lines))
        = cpu_samples (int_text ev) (records ?loads (take n lines))
          @ cpu_samples (int_text ev) (records ?loads (take (m - n) (drop n lines)))"
      by (simp add: records_append cpu_samples_append)
    with a(2) b(2) have "opt_le c1 c2" by (simp add: max_of_append_le)
    with a(1) b(1) show ?thesis by blast
  qed
  with summarize_fields(3) [OF assms] show ?thesis by blast
qed

lemma host_list_runs:
  "list_runs host ''job.service'' 2 []
     = (Inr host_history,
        [scan_cmd ''job.service'', invocation_cmd ''job.service'' inv_c,
         invocation_cmd ''job.service'' inv_b])"
  by code_simp

theorem history_bounds_witness:
  "list_runs host ''job.service'' 2 []
     = (Inr host_history,
        [scan_cmd ''job.service'', invocation_cmd ''job.service'' inv_c,
         invocation_cmd ''job.service'' inv_b]) \<and>
   int (length (runs host_history)) \<le> 2 \<and>
   distinct (map invocationId (runs host_history)) \<and>
   length (runs host_history) = 2"
proof -
  have "length (runs host_history) = 2" by (simp add: host_history_def)
  with history_bounds [OF host_list_runs] host_list_runs show ?thesis by blast
qed

theorem duration_presence_witness:
  "list_runs host ''job.service'' 2 []
     = (Inr host_history,
        [scan_cmd ''job.service'', invocation_cmd ''job.service'' inv_c,
         invocation_cmd ''job.service'' inv_b]) \<and>
   hd (runs host_history) \<in> set (runs host_history) \<and>
   durationMs (hd (runs host_history)) = Some 5000 \<and>
   (\<exists>s m. startMs (hd (runs host_history)) = Some s \<and>
          endMs (hd (runs host_history)) = Some m \<and> 5000 = m - s)"
proof -
  have r: "hd (runs host_history) \<in> set (runs host_history)"
    and d: "durationMs (hd (runs host_history)) = Some 5000"
    by (simp_all add: host_history_def)
  from duration_presence [OF host_list_runs r] d host_list_runs r show ?thesis by blast
qed

lemma host_cpu:
  "summarize host inv_a [line_cpu ''100'', line_cpu ''50'', line_cpu ''300'']
     = Inr \<lparr>invocationId = inv_a, startMs = None, startIso = None, endMs = None,
            endIso = None, durationMs = None, status = Unknown, cpuUsageNsec = Some 300\<rparr>"
  by code_simp

theorem cpu_usage_is_maximum_witness:
  "summarize host inv_a [line_cpu ''100'', line_cpu ''50'', line_cpu ''300'']
     = Inr \<lparr>invocationId = inv_a, startMs = None, startIso = None, endMs = None,
            endIso = None, durationMs = None, status = Unknown, cpuUsageNsec = Some 300\<rparr> \<and>
   cpu_samples (int_text host) (records (json_loads host) [line_cpu ''100'', line_cpu ''50'', line_cpu ''300''])
     = [100, 50, 300] \<and>
   max_of (cpu_samples (int_text host)
     (records (json_loads host) [line_cpu ''100'', line_cpu ''50'', line_cpu ''300''])) = Some 300"
proof -
  have "cpu_samples (int_text host) (records (json_loads host) [line_cpu ''100'', line_cpu ''50'', line_cpu ''300''])
     = [100, 50, 300]"
    by code_simp
  with cpu_usage_is_maximum [OF host_cpu] host_cpu show ?thesis by simp
qed

section \<open>The schedule of a service\<close>

lemma endswith_last: "endswith s p \<Longrightarrow> p \<noteq> [] \<Longrightarrow> last s = last p"
  by (metis endswith_def last_drop drop_eq_Nil not_le)

lemma service_not_timer: "endswith unit ''.service'' \<Longrightarrow> \<not> endswith unit ''.timer''"
proof
  assume "endswith unit ''.service''" "endswith unit ''.timer''"
  then have "last unit = last ''.service''" "last unit = last ''.timer''"
    by (auto dest: endswith_last)
  then show False by simp
qed

lemma next_key_le: "next_key t \<le> next_key c \<Longrightarrow> fires_before (nextMs t) (nextMs c)"
  by (auto simp: next_key_def fires_before_def less_eq_prod_def split: option.splits)

lemma sort_key_head:
  assumes "sort_key f xs = t # rest"
  shows "t \<in> set xs \<and> (\<forall>c\<in>set xs. f t \<le> f c)"
proof -
  have "set (sort_key f xs) = set xs" by simp
  with assms have mem: "t \<in> set xs" "set xs = insert t (set rest)" by auto
  have "sorted (map f (sort_key f xs))" by (rule sorted_sort_key)
  with assms have "\<forall>c\<in>set rest. f t \<le> f c" by simp
  with mem show ?thesis by auto
qed

text \<open>
  C4. For a unit name with the service suffix, \<^verbatim>\<open>schedule_for_unit\<close> reports, among
  the timers of the listing that activate the unit, one whose next fire is not later than
  that of any other, an absent next fire counting as latest; and it reports no timer and
  no schedule when no timer activates the unit. On the host two timers activate
  \<open>job.service\<close>, the first listed without a next fire and the second due at 5000 ms: the
  second is reported.
\<close>

theorem service_schedule_earliest:
  assumes "endswith unit ''.service''"
    and "schedule_for_unit ev unit tr = (Inr s, tr')"
  shows "\<exists>timers. list_timers ev tr = (Inr timers, tr') \<and>
           (if filter (\<lambda>t. activates t = JStr unit) timers = []
            then s = Schedule unit ''service'' JNull (JStr unit) None None None None
            else \<exists>t\<in>set timers. activates t = JStr unit \<and>
                   s = Schedule unit ''service'' (timer t) (JStr unit)
                         (nextMs t) (nextIso t) (lastMs t) (lastIso t) \<and>
                   (\<forall>c\<in>set timers. activates c = JStr unit \<longrightarrow>
                      fires_before (nextMs t) (nextMs c)))"
proof -
  from assms(1) have nt: "\<not> endswith unit ''.timer''" by (rule service_not_timer)
  from assms(2) nt assms(1) obtain timers d where
    lt: "list_timers ev tr = (Inr timers, tr')" and
    res: "(case sort_key next_key (filter (\<lambda>t. activates t = JStr unit) timers) of
             [] \<Rightarrow> Schedule unit ''service'' JNull (JStr unit) None None None None
           | t # candidates \<Rightarrow> Schedule unit ''service'' (timer t) (JStr unit)
                                (nextMs t) (nextIso t) (lastMs t) (lastIso t)) = s"
    by (auto simp: schedule_for_unit_def split: if_splits sum.splits prod.splits list.splits)
  let ?cands = "filter (\<lambda>t. activates t = JStr unit) timers"
  show ?thesis
  proof (cases "sort_key next_key ?cands")
    case Nil
    then have "?cands = []" by (metis length_sort list.size(3) length_0_conv)
    with Nil res lt show ?thesis by simp
  next
    case (Cons t rest)
    from sort_key_head [OF Cons] have "t \<in> set ?cands"
      "\<forall>c\<in>set ?cands. next_key t \<le> next_key c" by simp_all
    then have "t \<in> set timers" "activates t = JStr unit"
      "\<forall>c\<in>set timers. activates c = JStr unit \<longrightarrow> fires_before (nextMs t) (nextMs c)"
      by (auto intro: next_key_le)
    moreover from Cons have "?cands \<noteq> []" by auto
    ultimately show ?thesis using Cons res lt by auto
  qed
qed

lemma host_schedule:
  "schedule_for_unit host ''job.service'' []
     = (Inr (Schedule ''job.service'' ''service'' (JStr ''job.timer'') (JStr ''job.service'')
               (Some 5000) (Some ''1970-01-01T00:00:05+00:00'') None None),
        [timers_cmd])"
  by code_simp

lemma host_timers: "list_timers host [] = (Inr host_timer_list, [timers_cmd])"
  by code_simp

theorem service_schedule_earliest_witness:
  "endswith ''job.service'' ''.service'' \<and>
   list_timers host [] = (Inr host_timer_list, [timers_cmd]) \<and>
   map nextMs (filter (\<lambda>t. activates t = JStr ''job.service'') host_timer_list)
     = [None, Some 5000] \<and>
   schedule_for_unit host ''job.service'' []
     = (Inr (Schedule ''job.service'' ''service'' (JStr ''job.timer'') (JStr ''job.service'')
               (Some 5000) (Some ''1970-01-01T00:00:05+00:00'') None None),
        [timers_cmd])"
proof -
  have suffix: "endswith ''job.service'' ''.service''"
    by (simp add: endswith_def)
  from service_schedule_earliest [OF suffix host_schedule]
  obtain timers where "list_timers host [] = (Inr timers, [timers_cmd])"
    by blast
  with host_timers have "timers = host_timer_list" by simp
  moreover have "map nextMs (filter (\<lambda>t. activates t = JStr ''job.service'') host_timer_list)
     = [None, Some 5000]"
    by code_simp
  ultimately show ?thesis using suffix host_timers host_schedule by blast
qed

section \<open>Validation of unit names\<close>

lemma invalid_unit_iff: "invalid_unit unit = (\<not> UNIT_RE_fullmatch unit \<or> 200 < length unit)"
  by (auto simp: invalid_unit_def UNIT_RE_fullmatch_def)

lemma list_units_trace:
  assumes "list_units ev tr = (res, tr')"
  shows "\<exists>new. tr' = tr @ new \<and> set new \<subseteq> {unit_files_cmd, units_cmd}"
proof (cases "run ev unit_files_cmd tr")
  case (Pair r1 tr1)
  then have tr1: "tr1 = tr @ [unit_files_cmd]" by (rule run_trace)
  show ?thesis
  proof (cases r1)
    case (Inl err)
    with Pair assms tr1 have "tr' = tr @ [unit_files_cmd]"
      by (simp add: list_units_def unit_files_cmd_def)
    then show ?thesis by auto
  next
    case (Inr out)
    obtain r2 tr2 where second: "run ev units_cmd tr1 = (r2, tr2)"
      by (cases "run ev units_cmd tr1") auto
    then have "tr2 = tr1 @ [units_cmd]" by (rule run_trace)
    with Pair Inr second assms tr1 have "tr' = tr @ [unit_files_cmd, units_cmd]"
      by (cases r2) (simp_all add: list_units_def unit_files_cmd_def units_cmd_def Let_def)
    then show ?thesis by auto
  qed
qed

lemma deps_loop_mono: "deps_loop wanted lines = Inr wanted' \<Longrightarrow> wanted \<subseteq> wanted'"
proof (induction lines arbitrary: wanted)
  case Nil
  then show ?case by simp
next
  case (Cons line lines)
  show ?case
  proof (cases "lstrip_tokens tree_chars line = []")
    case True
    with Cons show ?thesis by simp
  next
    case False
    show ?thesis
    proof (cases "split_ws 1 (lstrip_tokens tree_chars line)")
      case Nil
      with False Cons.prems show ?thesis by simp
    next
      case (Cons u rest)
      with False Cons.prems
      have "deps_loop (if UNIT_RE_fullmatch u then insert u wanted else wanted) lines = Inr wanted'"
        by (simp split: if_splits)
      from Cons.IH [OF this] show ?thesis by (auto split: if_splits)
    qed
  qed
qed

lemma targets_loop_skipped:
  "list_all skipped_target targets \<Longrightarrow> targets_loop ev wanted targets tr = (Inr wanted, tr)"
  by (induction targets) (auto simp: skipped_target_def)

lemma targets_loop_step:
  assumes "\<not> skipped_target t"
  shows "targets_loop ev wanted (t # ts) tr =
     (case run ev (deps_cmd t) tr of
        (Inl err, tr1) \<Rightarrow> (Inl err, tr1)
      | (Inr deps, tr1) \<Rightarrow>
          (case deps_loop (insert t wanted) (splitlines deps) of
             Inl err \<Rightarrow> (Inl err, tr1)
           | Inr wanted' \<Rightarrow> targets_loop ev wanted' ts tr1))"
  using assms by (simp add: skipped_target_def deps_cmd_def)

lemma targets_loop_trace:
  assumes "targets_loop ev wanted targets tr = (res, tr')"
  shows "\<exists>new. tr' = tr @ new \<and>
           (\<forall>c\<in>set new. \<exists>t\<in>set targets. \<not> skipped_target t \<and> c = deps_cmd t)"
  using assms
proof (induction targets arbitrary: wanted tr)
  case Nil
  then show ?case by simp
next
  case (Cons t ts)
  show ?case
  proof (cases "skipped_target t")
    case True
    with Cons.prems have "targets_loop ev wanted ts tr = (res, tr')"
      by (simp add: skipped_target_def)
    from Cons.IH [OF this] show ?thesis by auto
  next
    case False
    note step = targets_loop_step [OF False, of ev wanted ts tr]
    obtain r1 tr1 where q: "run ev (deps_cmd t) tr = (r1, tr1)"
      by (cases "run ev (deps_cmd t) tr") auto
    then have tr1: "tr1 = tr @ [deps_cmd t]" by (rule run_trace)
    show ?thesis
    proof (cases r1)
      case (Inl err)
      with q step Cons.prems tr1 have "tr' = tr @ [deps_cmd t]" by simp
      with False show ?thesis by auto
    next
      case (Inr deps)
      show ?thesis
      proof (cases "deps_loop (insert t wanted) (splitlines deps)")
        case (Inl err)
        with q Inr step Cons.prems tr1 have "tr' = tr @ [deps_cmd t]" by simp
        with False show ?thesis by auto
      next
        case w: (Inr wanted')
        with q Inr step Cons.prems have "targets_loop ev wanted' ts tr1 = (res, tr')" by simp
        from Cons.IH [OF this] obtain new where
          "tr' = tr1 @ new" "\<forall>c\<in>set new. \<exists>t\<in>set ts. \<not> skipped_target t \<and> c = deps_cmd t"
          by blast
        with tr1 False have "tr' = tr @ (deps_cmd t # new) \<and>
            (\<forall>c\<in>set (deps_cmd t # new). \<exists>u\<in>set (t # ts). \<not> skipped_target u \<and> c = deps_cmd u)"
          by auto
        then show ?thesis by blast
      qed
    qed
  qed
qed

lemma targets_loop_wanted:
  assumes "targets_loop ev wanted targets tr = (Inr wanted', tr')"
  shows "wanted \<subseteq> wanted' \<and> (\<forall>t\<in>set targets. \<not> skipped_target t \<longrightarrow> t \<in> wanted')"
  using assms
proof (induction targets arbitrary: wanted tr)
  case Nil
  then show ?case by simp
next
  case (Cons t ts)
  show ?case
  proof (cases "skipped_target t")
    case True
    with Cons.prems have "targets_loop ev wanted ts tr = (Inr wanted', tr')"
      by (simp add: skipped_target_def)
    from Cons.IH [OF this] True show ?thesis by auto
  next
    case False
    note step = targets_loop_step [OF False, of ev wanted ts tr]
    from Cons.prems step obtain deps tr1 w1 where
      d: "deps_loop (insert t wanted) (splitlines deps) = Inr w1" and
      l: "targets_loop ev w1 ts tr1 = (Inr wanted', tr')"
      by (auto split: sum.splits prod.splits)
    from deps_loop_mono [OF d] Cons.IH [OF l] show ?thesis by auto
  qed
qed

lemma units_for_targets_trace:
  assumes "units_for_targets ev targets tr = (res, tr')"
  shows "\<exists>new. tr' = tr @ new \<and>
           (\<forall>c\<in>set new. c = unit_files_cmd \<or> c = units_cmd \<or>
              (\<exists>t\<in>set targets. \<not> skipped_target t \<and> c = deps_cmd t))"
proof (cases "targets = []")
  case True
  with assms have "list_units ev tr = (res, tr')" by (simp add: units_for_targets_def)
  from list_units_trace [OF this] show ?thesis by auto
next
  case False
  obtain r1 tr1 where t: "targets_loop ev {} targets tr = (r1, tr1)"
    by (cases "targets_loop ev {} targets tr") auto
  from targets_loop_trace [OF t] obtain n1 where
    n1: "tr1 = tr @ n1" "\<forall>c\<in>set n1. \<exists>t\<in>set targets. \<not> skipped_target t \<and> c = deps_cmd t"
    by blast
  show ?thesis
  proof (cases r1)
    case (Inl err)
    with t False assms have "tr' = tr1" by (simp add: units_for_targets_def)
    with n1 show ?thesis by auto
  next
    case (Inr wanted)
    obtain r2 tr2 where u: "list_units ev tr1 = (r2, tr2)"
      by (cases "list_units ev tr1") auto
    from list_units_trace [OF u] obtain n2 where
      n2: "tr2 = tr1 @ n2" "set n2 \<subseteq> {unit_files_cmd, units_cmd}" by blast
    from t Inr u False assms have "tr' = tr2"
      by (cases r2) (auto simp: units_for_targets_def split: if_splits)
    with n1 n2 have "tr' = tr @ (n1 @ n2)" by simp
    moreover from n1 n2 have "\<forall>c\<in>set (n1 @ n2). c = unit_files_cmd \<or> c = units_cmd \<or>
              (\<exists>t\<in>set targets. \<not> skipped_target t \<and> c = deps_cmd t)"
      by auto
    ultimately show ?thesis by blast
  qed
qed

lemma deps_cmd_inj: "deps_cmd a = deps_cmd b \<Longrightarrow> a = b"
  by (simp add: deps_cmd_def)

lemma deps_cmd_not_catalog: "deps_cmd a \<noteq> unit_files_cmd" "deps_cmd a \<noteq> units_cmd"
  by (simp_all add: deps_cmd_def unit_files_cmd_def units_cmd_def)

lemma schedule_rejects:
  "invalid_unit unit \<Longrightarrow> schedule_for_unit ev unit tr = (Inl (ValueError ''invalid unit''), tr)"
  unfolding schedule_for_unit_def by (rule if_P)

lemma list_runs_rejects:
  "invalid_unit unit \<Longrightarrow> list_runs ev unit limit tr = (Inl (ValueError ''invalid unit''), tr)"
  unfolding list_runs_def by (rule if_P)

lemma logs_rejects:
  "invalid_unit unit \<Longrightarrow>
     logs_for_invocation ev unit inv_id limit tr = (Inl (ValueError ''invalid unit''), tr)"
  unfolding logs_for_invocation_def by (rule if_P)

lemma detail_rejects:
  "invalid_unit unit \<Longrightarrow> unit_detail ev unit tr = (Inl (ValueError ''invalid unit''), tr)"
  unfolding unit_detail_def by (rule if_P)

text \<open>
  C5, as the code has it. A unit name that does not match the pattern or has more than 200
  characters is refused by \<^verbatim>\<open>schedule_for_unit\<close>, \<^verbatim>\<open>list_runs\<close>,
  \<^verbatim>\<open>logs_for_invocation\<close> and \<^verbatim>\<open>unit_detail\<close> with the error \<^verbatim>\<open>ValueError("invalid unit")\<close>,
  which no query raises, and with no command issued. \<^verbatim>\<open>units_for_targets\<close> does not
  refuse such a name: it passes over it, and the only commands it issues are the two
  listings of the catalog and the dependency listing of the names it does not pass over,
  so the name is in no command.
\<close>

theorem invalid_unit_rejected:
  assumes "\<not> UNIT_RE_fullmatch unit \<or> 200 < length unit"
  shows "schedule_for_unit ev unit tr = (Inl (ValueError ''invalid unit''), tr) \<and>
         list_runs ev unit limit tr = (Inl (ValueError ''invalid unit''), tr) \<and>
         logs_for_invocation ev unit inv_id limit' tr = (Inl (ValueError ''invalid unit''), tr) \<and>
         unit_detail ev unit tr = (Inl (ValueError ''invalid unit''), tr) \<and>
         (\<forall>targets res tr'. units_for_targets ev targets tr = (res, tr') \<longrightarrow>
            (\<exists>new. tr' = tr @ new \<and> deps_cmd unit \<notin> set new \<and>
               (\<forall>c\<in>set new. c = unit_files_cmd \<or> c = units_cmd \<or>
                  (\<exists>t\<in>set targets. \<not> skipped_target t \<and> c = deps_cmd t))))"
proof (intro conjI allI impI)
  from assms have inv: "invalid_unit unit" by (simp only: invalid_unit_iff)
  then show "schedule_for_unit ev unit tr = (Inl (ValueError ''invalid unit''), tr)"
    by (rule schedule_rejects)
  from inv show "list_runs ev unit limit tr = (Inl (ValueError ''invalid unit''), tr)"
    by (rule list_runs_rejects)
  from inv
  show "logs_for_invocation ev unit inv_id limit' tr = (Inl (ValueError ''invalid unit''), tr)"
    by (rule logs_rejects)
  from inv show "unit_detail ev unit tr = (Inl (ValueError ''invalid unit''), tr)"
    by (rule detail_rejects)
  fix targets res tr'
  assume "units_for_targets ev targets tr = (res, tr')"
  from units_for_targets_trace [OF this] obtain new where
    new: "tr' = tr @ new" "\<forall>c\<in>set new. c = unit_files_cmd \<or> c = units_cmd \<or>
            (\<exists>t\<in>set targets. \<not> skipped_target t \<and> c = deps_cmd t)" by blast
  have "deps_cmd unit \<notin> set new"
  proof
    assume "deps_cmd unit \<in> set new"
    with new(2) have "deps_cmd unit = unit_files_cmd \<or> deps_cmd unit = units_cmd \<or>
        (\<exists>t\<in>set targets. \<not> skipped_target t \<and> deps_cmd unit = deps_cmd t)"
      by (rule bspec)
    then obtain t where "\<not> skipped_target t" "deps_cmd unit = deps_cmd t"
      using deps_cmd_not_catalog by blast
    then have "\<not> skipped_target unit" using deps_cmd_inj by blast
    with inv show False by (simp only: skipped_target_def simp_thms)
  qed
  with new show "\<exists>new. tr' = tr @ new \<and> deps_cmd unit \<notin> set new \<and>
      (\<forall>c\<in>set new. c = unit_files_cmd \<or> c = units_cmd \<or>
         (\<exists>t\<in>set targets. \<not> skipped_target t \<and> c = deps_cmd t))"
    by (intro exI [of _ new] conjI)
qed

lemma bad_name: "\<not> UNIT_RE_fullmatch ''bad name'' \<or> 200 < length ''bad name''"
  by code_simp

lemma host_bad_target:
  "units_for_targets host [''bad name''] [] = (Inr host_catalog, [unit_files_cmd, units_cmd])"
  by code_simp

theorem invalid_unit_rejected_witness:
  "schedule_for_unit host ''bad name'' [] = (Inl (ValueError ''invalid unit''), []) \<and>
   list_runs host ''bad name'' 10 [] = (Inl (ValueError ''invalid unit''), []) \<and>
   logs_for_invocation host ''bad name'' inv_a 400 [] = (Inl (ValueError ''invalid unit''), []) \<and>
   unit_detail host ''bad name'' [] = (Inl (ValueError ''invalid unit''), []) \<and>
   deps_cmd ''bad name'' \<notin> set [unit_files_cmd, units_cmd]"
proof -
  note r = invalid_unit_rejected [OF bad_name, of host "[]" 10 inv_a 400]
  note targets = r [THEN conjunct2, THEN conjunct2, THEN conjunct2, THEN conjunct2,
      rule_format, OF host_bad_target]
  then obtain new where e: "[unit_files_cmd, units_cmd] = [] @ new"
    and n: "deps_cmd ''bad name'' \<notin> set new"
    by (elim exE conjE)
  note eq = e [unfolded append_Nil, symmetric]
  from n have "deps_cmd ''bad name'' \<notin> set [unit_files_cmd, units_cmd]"
    unfolding eq .
  with r [THEN conjunct1] r [THEN conjunct2, THEN conjunct1]
    r [THEN conjunct2, THEN conjunct2, THEN conjunct1]
    r [THEN conjunct2, THEN conjunct2, THEN conjunct2, THEN conjunct1]
  show ?thesis by (intro conjI)
qed

text \<open>
  \<^verbatim>\<open>units_for_targets\<close> is not among the functions that refuse: for the name
  \<open>bad name\<close> it raises no validation error, issues the two catalog queries and returns
  the whole catalog.
\<close>

theorem invalid_target_not_rejected:
  "invalid_unit ''bad name'' \<and>
   units_for_targets host [''bad name''] [] = (Inr host_catalog, [unit_files_cmd, units_cmd]) \<and>
   fst (units_for_targets host [''bad name''] []) \<noteq> Inl (ValueError ''invalid unit'') \<and>
   snd (units_for_targets host [''bad name''] []) \<noteq> []"
  using bad_name host_bad_target by (simp only: fst_conv snd_conv invalid_unit_iff) simp

section \<open>Units by targets\<close>

lemma skipped_all_empty:
  assumes "list_all skipped_target targets"
  shows "units_for_targets ev targets tr = list_units ev tr"
proof (cases "targets = []")
  case True
  then show ?thesis by (simp add: units_for_targets_def)
next
  case False
  from assms have "targets_loop ev {} targets tr = (Inr {}, tr)"
    by (rule targets_loop_skipped)
  with False show ?thesis by (simp add: units_for_targets_def)
qed

lemma wanted_filter:
  assumes "\<not> list_all skipped_target targets"
    and "units_for_targets ev targets tr = (Inr items, tr')"
  shows "\<exists>wanted tr1 catalog.
           targets_loop ev {} targets tr = (Inr wanted, tr1) \<and>
           (\<forall>t\<in>set targets. \<not> skipped_target t \<longrightarrow> t \<in> wanted) \<and>
           list_units ev tr1 = (Inr catalog, tr') \<and>
           items = filter (\<lambda>u. case map_of u ''unit'' of None \<Rightarrow> False
                                | Some n \<Rightarrow> n \<in> wanted) catalog"
proof -
  from assms(1) obtain t where t: "t \<in> set targets" "\<not> skipped_target t"
    by (auto simp: list_all_iff)
  then have ne: "targets \<noteq> []" by auto
  obtain r1 tr1 where l: "targets_loop ev {} targets tr = (r1, tr1)"
    by (cases "targets_loop ev {} targets tr") auto
  show ?thesis
  proof (cases r1)
    case (Inl err)
    with l ne assms(2) show ?thesis by (simp add: units_for_targets_def)
  next
    case (Inr wanted)
    from targets_loop_wanted [OF l [unfolded Inr]]
    have w: "\<forall>t\<in>set targets. \<not> skipped_target t \<longrightarrow> t \<in> wanted" by blast
    with t have "wanted \<noteq> {}" by auto
    with l Inr ne assms(2) obtain catalog where
      "list_units ev tr1 = (Inr catalog, tr')"
      "items = filter (\<lambda>u. case map_of u ''unit'' of None \<Rightarrow> False
                            | Some n \<Rightarrow> n \<in> wanted) catalog"
      by (auto simp: units_for_targets_def split: sum.splits prod.splits)
    with l Inr w show ?thesis by blast
  qed
qed

text \<open>
  C8, as the code has it. The whole catalog is what \<^verbatim>\<open>units_for_targets\<close> returns when
  the wanted set is empty, and that is when every given name is passed over (it is not
  well-formed or has no target suffix). A name that is not passed over is itself in the
  wanted set as soon as its dependency query answers, so the result is then the catalog
  filtered to the wanted names, with or without the target in the catalog.
\<close>

theorem units_fallback:
  "(list_all skipped_target targets \<longrightarrow> units_for_targets ev targets tr = list_units ev tr) \<and>
   (\<not> list_all skipped_target targets \<longrightarrow>
      (\<forall>items tr'. units_for_targets ev targets tr = (Inr items, tr') \<longrightarrow>
         (\<exists>wanted tr1 catalog.
            targets_loop ev {} targets tr = (Inr wanted, tr1) \<and>
            (\<forall>t\<in>set targets. \<not> skipped_target t \<longrightarrow> t \<in> wanted) \<and>
            list_units ev tr1 = (Inr catalog, tr') \<and>
            items = filter (\<lambda>u. case map_of u ''unit'' of None \<Rightarrow> False
                                 | Some n \<Rightarrow> n \<in> wanted) catalog)))"
proof (intro conjI impI allI)
  assume "list_all skipped_target targets"
  then show "units_for_targets ev targets tr = list_units ev tr"
    by (rule skipped_all_empty)
next
  fix items tr'
  assume "\<not> list_all skipped_target targets"
    and "units_for_targets ev targets tr = (Inr items, tr')"
  then show "\<exists>wanted tr1 catalog.
            targets_loop ev {} targets tr = (Inr wanted, tr1) \<and>
            (\<forall>t\<in>set targets. \<not> skipped_target t \<longrightarrow> t \<in> wanted) \<and>
            list_units ev tr1 = (Inr catalog, tr') \<and>
            items = filter (\<lambda>u. case map_of u ''unit'' of None \<Rightarrow> False
                                 | Some n \<Rightarrow> n \<in> wanted) catalog"
    by (rule wanted_filter)
qed

lemma host_list_units: "list_units host [] = (Inr host_catalog, [unit_files_cmd, units_cmd])"
  by code_simp

lemma host_a_target:
  "units_for_targets host [''a.target''] []
     = (Inr [], [deps_cmd ''a.target'', unit_files_cmd, units_cmd])"
  by code_simp

lemma host_b_target:
  "units_for_targets host [''b.target''] []
     = (Inl (RuntimeError ''unknown command''), [deps_cmd ''b.target''])"
  by code_simp

lemma host_skipped:
  "list_all skipped_target [''bad name'', ''job.service'']" "\<not> list_all skipped_target [''a.target'']"
  by code_simp+

theorem units_fallback_witness:
  "list_all skipped_target [''bad name'', ''job.service''] \<and>
   units_for_targets host [''bad name'', ''job.service''] []
     = (Inr host_catalog, [unit_files_cmd, units_cmd]) \<and>
   \<not> list_all skipped_target [''a.target''] \<and>
   units_for_targets host [''a.target''] []
     = (Inr [], [deps_cmd ''a.target'', unit_files_cmd, units_cmd]) \<and>
   (\<exists>wanted tr1. targets_loop host {} [''a.target''] [] = (Inr wanted, tr1) \<and>
      ''a.target'' \<in> wanted)"
proof -
  note first = units_fallback [of "[''bad name'', ''job.service'']" host "[]",
      THEN conjunct1, rule_format, OF host_skipped(1)]
  note second = units_fallback [of "[''a.target'']" host "[]",
      THEN conjunct2, rule_format, OF host_skipped(2) host_a_target]
  from first host_list_units
  have a: "units_for_targets host [''bad name'', ''job.service''] []
     = (Inr host_catalog, [unit_files_cmd, units_cmd])"
    by (simp only:)
  from second obtain wanted tr1 where
    l: "targets_loop host {} [''a.target''] [] = (Inr wanted, tr1)" and
    w: "\<forall>t\<in>set [''a.target'']. \<not> skipped_target t \<longrightarrow> t \<in> wanted"
    by (elim exE conjE)
  from w host_skipped(2) have "''a.target'' \<in> wanted" by simp
  with l have "\<exists>wanted tr1. targets_loop host {} [''a.target''] [] = (Inr wanted, tr1) \<and>
      ''a.target'' \<in> wanted"
    by (intro exI conjI)
  with a host_skipped host_a_target show ?thesis by (intro conjI)
qed

text \<open>
  On the host \<open>a.target\<close> is a well-formed target name that is not in the catalog and
  whose dependency listing is empty, and the result is the empty list, not the catalog;
  for \<open>b.target\<close> the dependency query fails and so does the call.
\<close>

theorem unresolvable_target_not_full_catalog:
  "\<not> skipped_target ''a.target'' \<and>
   list_units host [] = (Inr host_catalog, [unit_files_cmd, units_cmd]) \<and>
   units_for_targets host [''a.target''] []
     = (Inr [], [deps_cmd ''a.target'', unit_files_cmd, units_cmd]) \<and>
   fst (units_for_targets host [''a.target''] []) \<noteq> fst (list_units host []) \<and>
   units_for_targets host [''b.target''] []
     = (Inl (RuntimeError ''unknown command''), [deps_cmd ''b.target''])"
proof -
  have "\<not> skipped_target ''a.target''" using host_skipped(2) by simp
  moreover have "fst (units_for_targets host [''a.target''] []) \<noteq> fst (list_units host [])"
    unfolding host_a_target host_list_units by (simp add: host_catalog_def)
  ultimately show ?thesis using host_list_units host_a_target host_b_target by (intro conjI)
qed

section \<open>The log unit\<close>

text \<open>The pattern is tested on every path to a journal query; the length is not.\<close>

lemma log_unit_matches_pattern:
  assumes "\<not> invalid_unit unit" and "resolve_log_unit ev unit tr = (Inr log_unit, tr')"
  shows "UNIT_RE_fullmatch log_unit"
proof (cases "endswith unit ''.timer''")
  case False
  with assms show ?thesis by (simp add: resolve_log_unit_def invalid_unit_def)
next
  case True
  obtain r tr1 where s: "schedule_for_unit ev unit tr = (r, tr1)"
    by (cases "schedule_for_unit ev unit tr") auto
  show ?thesis
  proof (cases r)
    case (Inl err)
    with s True assms(2) show ?thesis by (simp add: resolve_log_unit_def)
  next
    case (Inr sch)
    with s True assms show ?thesis
      by (cases "schedule_activates sch")
         (auto simp: resolve_log_unit_def invalid_unit_def split: if_splits)
  qed
qed

text \<open>
  C6 does not hold of the code. On the host the timer \<open>x.timer\<close> activates a service whose name matches the
  pattern and has 201 characters; \<^verbatim>\<open>resolve_log_unit\<close> tests the pattern only, so
  \<^verbatim>\<open>list_runs("x.timer")\<close> queries the journal for that name, which every entry point
  would refuse as a unit.
\<close>

theorem long_log_unit_reaches_query:
  "\<not> invalid_unit ''x.timer'' \<and>
   list_runs host ''x.timer'' 1 []
     = (Inr \<lparr>logUnit = long_unit, runs = []\<rparr>, [timers_cmd, scan_cmd long_unit]) \<and>
   scan_cmd long_unit
     = [''journalctl'', ''--unit='' @ long_unit, ''-n'', ''20000'', ''--no-pager'', ''-o'', ''json''] \<and>
   UNIT_RE_fullmatch long_unit \<and> length long_unit = 201 \<and> invalid_unit long_unit"
proof -
  have "\<not> invalid_unit ''x.timer''" by code_simp
  moreover have "list_runs host ''x.timer'' 1 []
     = (Inr \<lparr>logUnit = long_unit, runs = []\<rparr>, [timers_cmd, scan_cmd long_unit])"
    by code_simp
  moreover have "UNIT_RE_fullmatch long_unit" by code_simp
  moreover have "length long_unit = 201" by (simp add: long_unit_def)
  moreover have "invalid_unit long_unit" by code_simp
  ultimately show ?thesis by (simp only: scan_cmd_def simp_thms)
qed

end
